theory Spec2Isabelle
  imports Main "HOL-Library.Sublist"
begin

section \<open>Folder synchronisation: the file system the program works on\<close>

text \<open>
  The program (\<^verbatim>\<open>main.py\<close>) mirrors a source folder into a replica folder.  Everything it
  does goes through the operating system: \<^verbatim>\<open>Path.exists\<close>, \<^verbatim>\<open>Path.stat\<close>, \<^verbatim>\<open>open\<close>,
  \<^verbatim>\<open>os.walk\<close>, \<^verbatim>\<open>os.makedirs\<close>, \<^verbatim>\<open>shutil.copy2\<close>, \<^verbatim>\<open>os.remove\<close> and \<^verbatim>\<open>shutil.rmtree\<close>.
  The two folders are modelled as two separate trees; a path is a side (source or replica)
  and the list of names below that folder.  A regular file carries its bytes, its
  modification time and whether the process may read and write it; a directory carries its
  listing, in the order \<^verbatim>\<open>scandir\<close> reports it.  Directories are always accessible, symbolic
  links and special files are left out, and the two folders do not overlap.
\<close>

type_synonym bytes = string

type_synonym path = "string list"

datatype node =
    File bytes int bool bool
  | Dir "(string \<times> node) list"

datatype side = Source | Replica

type_synonym Path = "side \<times> path"

datatype error =
    FileNotFoundError
  | FileExistsError
  | NotADirectoryError
  | IsADirectoryError
  | PermissionError

record stat_result =
  st_size :: nat
  st_mtime :: int

text \<open>
  What the program takes from libraries: the MD5 digest of a byte string
  (\<^verbatim>\<open>hashlib.md5\<close>), the glob matcher (\<^verbatim>\<open>fnmatch.fnmatch\<close>), and what \<^verbatim>\<open>stat\<close> reports for a
  directory (the model keeps no size or time for directories).  They are parameters.
\<close>

record env =
  md5_hexdigest :: "bytes \<Rightarrow> string"
  fnmatch :: "string \<Rightarrow> string \<Rightarrow> bool"
  dir_stat :: "Path \<Rightarrow> stat_result"

text \<open>The records the program hands to \<^verbatim>\<open>logging.info\<close> and \<^verbatim>\<open>logging.error\<close>.\<close>

datatype level = INFO | ERROR

datatype log_record =
    Would_create_replica_folder Path
  | Created_replica_folder Path
  | Created_directory Path
  | Excluding_file string
  | Copied_Updated_file Path Path
  | Failed_to_copy Path Path error
  | Would_copy_update_file Path Path
  | Removed_file Path
  | Would_remove_file Path
  | Removed_directory Path
  | Would_remove_directory Path
  | Error_hashing_file Path error

fun levelname :: "log_record \<Rightarrow> level" where
  "levelname (Failed_to_copy s r e) = ERROR"
| "levelname (Error_hashing_file p e) = ERROR"
| "levelname m = INFO"

record state =
  source :: "node option"
  replica :: "node option"
  source_replica_pairs :: "(Path \<times> Path) list"
  log :: "log_record list"

text \<open>An exception leaves the function with the state reached so far.\<close>

type_synonym outcome = "(error \<times> state) + state"

subsection \<open>Trees\<close>

fun lookup :: "node option \<Rightarrow> path \<Rightarrow> node option" where
  "lookup None p = None"
| "lookup (Some n) [] = Some n"
| "lookup (Some (File c m r w)) (x # p) = None"
| "lookup (Some (Dir es)) (x # p) = lookup (map_of es x) p"

definition set_entry :: "(string \<times> node) list \<Rightarrow> string \<Rightarrow> node \<Rightarrow> (string \<times> node) list" where
  "set_entry es x c =
     (if x \<in> fst ` set es then map (\<lambda>(k, v). if k = x then (k, c) else (k, v)) es
      else es @ [(x, c)])"

definition remove_entry :: "(string \<times> node) list \<Rightarrow> string \<Rightarrow> (string \<times> node) list" where
  "remove_entry es x = filter (\<lambda>(k, v). k \<noteq> x) es"

text \<open>\<open>put r p n\<close> writes the node \<open>n\<close> at \<open>p\<close> when the parent of \<open>p\<close> is a directory.\<close>

fun put :: "node option \<Rightarrow> path \<Rightarrow> node \<Rightarrow> node option" where
  "put r [] n = Some n"
| "put None (x # p) n = None"
| "put (Some (File c m rd w)) (x # p) n = Some (File c m rd w)"
| "put (Some (Dir es)) (x # p) n =
     (case put (map_of es x) p n of
        None \<Rightarrow> Some (Dir es)
      | Some c \<Rightarrow> Some (Dir (set_entry es x c)))"

text \<open>\<open>unlink r p\<close> takes the entry at \<open>p\<close>, with all below it, out of its directory.\<close>

fun unlink :: "node option \<Rightarrow> path \<Rightarrow> node option" where
  "unlink r [] = None"
| "unlink None (x # p) = None"
| "unlink (Some (File c m rd w)) (x # p) = Some (File c m rd w)"
| "unlink (Some (Dir es)) (x # p) =
     (case unlink (map_of es x) p of
        None \<Rightarrow> Some (Dir (remove_entry es x))
      | Some c \<Rightarrow> Some (Dir (set_entry es x c)))"

text \<open>
  \<^verbatim>\<open>os.makedirs(path)\<close>: creates the directory and every missing ancestor; raises when the
  path exists, or when an ancestor is a regular file.  Nothing is created when it raises.
\<close>

fun mkdirs :: "node option \<Rightarrow> path \<Rightarrow> error + node" where
  "mkdirs None [] = Inr (Dir [])"
| "mkdirs None (x # p) =
     (case mkdirs None p of Inl e \<Rightarrow> Inl e | Inr c \<Rightarrow> Inr (Dir [(x, c)]))"
| "mkdirs (Some (File c m r w)) [] = Inl FileExistsError"
| "mkdirs (Some (File c m r w)) (x # p) = Inl NotADirectoryError"
| "mkdirs (Some (Dir es)) [] = Inl FileExistsError"
| "mkdirs (Some (Dir es)) (x # p) =
     (case mkdirs (map_of es x) p of
        Inl e \<Rightarrow> Inl e
      | Inr c \<Rightarrow> Inr (Dir (set_entry es x c)))"

fun is_Dir :: "node \<Rightarrow> bool" where
  "is_Dir (Dir es) = True"
| "is_Dir (File c m r w) = False"

text \<open>The two lists \<^verbatim>\<open>os.walk\<close> yields for a directory: its subdirectories and the rest.\<close>

definition dirs_of :: "(string \<times> node) list \<Rightarrow> string list" where
  "dirs_of es = map fst (filter (\<lambda>(k, v). is_Dir v) es)"

definition files_of :: "(string \<times> node) list \<Rightarrow> string list" where
  "files_of es = map fst (filter (\<lambda>(k, v). \<not> is_Dir v) es)"

subsection \<open>The system calls, on the state\<close>

fun root :: "state \<Rightarrow> side \<Rightarrow> node option" where
  "root st Source = source st"
| "root st Replica = replica st"

fun set_root :: "state \<Rightarrow> side \<Rightarrow> node option \<Rightarrow> state" where
  "set_root st Source r = st\<lparr>source := r\<rparr>"
| "set_root st Replica r = st\<lparr>replica := r\<rparr>"

definition node_at :: "state \<Rightarrow> Path \<Rightarrow> node option" where
  "node_at st P = lookup (root st (fst P)) (snd P)"

definition exists :: "state \<Rightarrow> Path \<Rightarrow> bool" where
  "exists st P = (node_at st P \<noteq> None)"

definition isdir :: "state \<Rightarrow> Path \<Rightarrow> bool" where
  "isdir st P = (case node_at st P of Some (Dir es) \<Rightarrow> True | _ \<Rightarrow> False)"

definition stat :: "env \<Rightarrow> state \<Rightarrow> Path \<Rightarrow> error + stat_result" where
  "stat ev st P =
     (case node_at st P of
        None \<Rightarrow> Inl FileNotFoundError
      | Some (File c m r w) \<Rightarrow> Inr \<lparr>st_size = length c, st_mtime = m\<rparr>
      | Some (Dir es) \<Rightarrow> Inr (dir_stat ev P))"

definition open_rb :: "state \<Rightarrow> Path \<Rightarrow> error + bytes" where
  "open_rb st P =
     (case node_at st P of
        None \<Rightarrow> Inl FileNotFoundError
      | Some (Dir es) \<Rightarrow> Inl IsADirectoryError
      | Some (File c m r w) \<Rightarrow> if r then Inr c else Inl PermissionError)"

definition makedirs :: "state \<Rightarrow> Path \<Rightarrow> outcome" where
  "makedirs st P =
     (case mkdirs (root st (fst P)) (snd P) of
        Inl e \<Rightarrow> Inl (e, st)
      | Inr n \<Rightarrow> Inr (set_root st (fst P) (Some n)))"

definition os_remove :: "state \<Rightarrow> Path \<Rightarrow> outcome" where
  "os_remove st P =
     (case node_at st P of
        None \<Rightarrow> Inl (FileNotFoundError, st)
      | Some (Dir es) \<Rightarrow> Inl (IsADirectoryError, st)
      | Some (File c m r w) \<Rightarrow> Inr (set_root st (fst P) (unlink (root st (fst P)) (snd P))))"

definition rmtree :: "state \<Rightarrow> Path \<Rightarrow> outcome" where
  "rmtree st P =
     (case node_at st P of
        None \<Rightarrow> Inl (FileNotFoundError, st)
      | Some (File c m r w) \<Rightarrow> Inl (NotADirectoryError, st)
      | Some (Dir es) \<Rightarrow> Inr (set_root st (fst P) (unlink (root st (fst P)) (snd P))))"

text \<open>
  \<^verbatim>\<open>shutil.copy2(src, dst)\<close>: when \<open>dst\<close> is a directory the file goes into it under the
  base name of \<open>src\<close>.  The source is opened for reading first, then the target for
  writing (an existing target must be writable, a new one needs its parent directory);
  the bytes are written and \<^verbatim>\<open>copystat\<close> carries the modification time and the permission
  bits over, so the target becomes a copy of the source node.
\<close>

definition copy2 :: "state \<Rightarrow> Path \<Rightarrow> Path \<Rightarrow> outcome" where
  "copy2 st src dst =
     (let dst' = (if isdir st dst then (fst dst, snd dst @ [last (snd src)]) else dst) in
      case node_at st src of
        None \<Rightarrow> Inl (FileNotFoundError, st)
      | Some (Dir es) \<Rightarrow> Inl (IsADirectoryError, st)
      | Some (File c m r w) \<Rightarrow>
          if \<not> r then Inl (PermissionError, st)
          else
            (case node_at st dst' of
               Some (Dir es) \<Rightarrow> Inl (IsADirectoryError, st)
             | Some (File c' m' r' w') \<Rightarrow>
                 if \<not> w' then Inl (PermissionError, st)
                 else Inr (set_root st (fst dst') (put (root st (fst dst')) (snd dst') (File c m r w)))
             | None \<Rightarrow>
                 (case node_at st (fst dst', butlast (snd dst')) of
                    None \<Rightarrow> Inl (FileNotFoundError, st)
                  | Some (File c' m' r' w') \<Rightarrow> Inl (NotADirectoryError, st)
                  | Some (Dir es) \<Rightarrow>
                      Inr (set_root st (fst dst') (put (root st (fst dst')) (snd dst') (File c m r w))))))"

definition logging :: "log_record \<Rightarrow> state \<Rightarrow> state" where
  "logging m st = st\<lparr>log := log st @ [m]\<rparr>"

section \<open>The program\<close>

subsection \<open>\<^verbatim>\<open>hash_file\<close>\<close>

text \<open>
  The loop \<^verbatim>\<open>for chunk in iter(lambda: f.read(4096), b""): hash_md5.update(chunk)\<close>.  The
  digest object is the bytes fed to it so far; \<^verbatim>\<open>hexdigest\<close> is the digest of those bytes.
\<close>

function read_chunks :: "bytes \<Rightarrow> bytes \<Rightarrow> bytes" where
  "read_chunks hash_md5 f =
     (if take 4096 f = [] then hash_md5
      else read_chunks (hash_md5 @ take 4096 f) (drop 4096 f))"
  by pat_completeness auto
termination
  by (relation "measure (\<lambda>(hash_md5, f). length f)") auto

definition hash_file :: "env \<Rightarrow> state \<Rightarrow> Path \<Rightarrow> string option \<times> state" where
  "hash_file ev st file_path =
     (case open_rb st file_path of
        Inr f \<Rightarrow> (Some (md5_hexdigest ev (read_chunks [] f)), st)
      | Inl e \<Rightarrow> (None, logging (Error_hashing_file file_path e) st))"

subsection \<open>\<^verbatim>\<open>files_are_different\<close>\<close>

definition files_are_different :: "env \<Rightarrow> state \<Rightarrow> Path \<Rightarrow> Path \<Rightarrow> (error \<times> state) + (bool \<times> state)" where
  "files_are_different ev st source_file replica_file =
     (case stat ev st source_file of
        Inl e \<Rightarrow> Inl (e, st)
      | Inr s \<Rightarrow>
     (case stat ev st replica_file of
        Inl e \<Rightarrow> Inl (e, st)
      | Inr r \<Rightarrow>
          if st_size s \<noteq> st_size r then Inr (True, st)
          else if st_mtime s > st_mtime r then Inr (True, st)
          else
            (let (h1, st1) = hash_file ev st source_file;
                 (h2, st2) = hash_file ev st1 replica_file
             in Inr (h1 \<noteq> h2, st2))))"

subsection \<open>\<^verbatim>\<open>should_exclude\<close>\<close>

definition should_exclude :: "env \<Rightarrow> string \<Rightarrow> string list \<Rightarrow> bool" where
  "should_exclude ev file_name exclude_patterns =
     list_ex (\<lambda>pattern. fnmatch ev file_name pattern) exclude_patterns"

subsection \<open>\<^verbatim>\<open>sync_folders\<close>\<close>

text \<open>A \<^verbatim>\<open>for\<close> loop whose body may raise: the exception ends the loop.\<close>

fun for_each :: "('a \<Rightarrow> state \<Rightarrow> outcome) \<Rightarrow> 'a list \<Rightarrow> state \<Rightarrow> outcome" where
  "for_each body [] st = Inr st"
| "for_each body (x # xs) st =
     (case body x st of Inl e \<Rightarrow> Inl e | Inr st' \<Rightarrow> for_each body xs st')"

text \<open>
  \<^verbatim>\<open>for dirpath, dirs, files in os.walk(folder)\<close>, top-down: the loop body runs on a directory
  (its path below the folder and its listing), then the walk goes through the
  subdirectories that listing named, in order, each with all below it before the next.
  The walk lists a subdirectory only when it gets there: one that is gone by then (the
  body removed it) makes \<^verbatim>\<open>scandir\<close> fail, which \<^verbatim>\<open>os.walk\<close> ignores.  The body of the program
  only ever changes entries of the directory it is run on, so the listing of a
  subdirectory that is still there is the one it had when its parent was listed.
\<close>

fun os_walk_dirs ::
  "side \<Rightarrow> (path \<Rightarrow> (string \<times> node) list \<Rightarrow> state \<Rightarrow> outcome) \<Rightarrow> path \<Rightarrow> (string \<times> node) list
     \<Rightarrow> state \<Rightarrow> outcome" where
  "os_walk_dirs sd body dirpath [] st = Inr st"
| "os_walk_dirs sd body dirpath ((name, File c m r w) # rest) st = os_walk_dirs sd body dirpath rest st"
| "os_walk_dirs sd body dirpath ((name, Dir sub) # rest) st =
     (if isdir st (sd, dirpath @ [name]) then
        (case body (dirpath @ [name]) sub st of
           Inl e \<Rightarrow> Inl e
         | Inr st1 \<Rightarrow>
        (case os_walk_dirs sd body (dirpath @ [name]) sub st1 of
           Inl e \<Rightarrow> Inl e
         | Inr st2 \<Rightarrow> os_walk_dirs sd body dirpath rest st2))
      else os_walk_dirs sd body dirpath rest st)"

definition os_walk :: "side \<Rightarrow> (path \<Rightarrow> (string \<times> node) list \<Rightarrow> state \<Rightarrow> outcome) \<Rightarrow> state \<Rightarrow> outcome" where
  "os_walk sd body st =
     (case root st sd of
        Some (Dir es) \<Rightarrow>
          (case body [] es st of
             Inl e \<Rightarrow> Inl e
           | Inr st1 \<Rightarrow> os_walk_dirs sd body [] es st1)
      | _ \<Rightarrow> Inr st)"

text \<open>Lines 65 to 68: the replica folder itself.\<close>

definition ensure_replica_folder :: "bool \<Rightarrow> state \<Rightarrow> outcome" where
  "ensure_replica_folder dry_run st =
     (if \<not> exists st (Replica, []) then
        (case (if \<not> dry_run then makedirs st (Replica, []) else Inr st) of
           Inl e \<Rightarrow> Inl e
         | Inr st1 \<Rightarrow>
             Inr (logging (if dry_run then Would_create_replica_folder (Replica, [])
                           else Created_replica_folder (Replica, [])) st1))
      else Inr st)"

text \<open>Lines 71 to 79: \<^verbatim>\<open>copy_or_update_file\<close>, which catches every exception of the copy.\<close>

definition copy_or_update_file :: "bool \<Rightarrow> Path \<times> Path \<Rightarrow> state \<Rightarrow> state" where
  "copy_or_update_file dry_run pair st =
     (let source_file = fst pair; replica_file = snd pair in
      if \<not> dry_run then
        (case copy2 st source_file replica_file of
           Inr st1 \<Rightarrow> logging (Copied_Updated_file source_file replica_file) st1
         | Inl (e, st1) \<Rightarrow> logging (Failed_to_copy source_file replica_file e) st1)
      else logging (Would_copy_update_file source_file replica_file) st)"

text \<open>Lines 91 to 101: one file of the directory the scan is in.\<close>

definition scan_file :: "env \<Rightarrow> string list \<Rightarrow> path \<Rightarrow> string \<Rightarrow> state \<Rightarrow> outcome" where
  "scan_file ev exclude_patterns relative_path file_name st =
     (if should_exclude ev file_name exclude_patterns
      then Inr (logging (Excluding_file file_name) st)
      else
        (let source_file = (Source, relative_path @ [file_name]);
             replica_file = (Replica, relative_path @ [file_name]) in
         if \<not> exists st replica_file
         then Inr (st\<lparr>source_replica_pairs := source_replica_pairs st @ [(source_file, replica_file)]\<rparr>)
         else
           (case files_are_different ev st source_file replica_file of
              Inl e \<Rightarrow> Inl e
            | Inr (d, st1) \<Rightarrow>
                Inr (if d
                     then st1\<lparr>source_replica_pairs :=
                            source_replica_pairs st1 @ [(source_file, replica_file)]\<rparr>
                     else st1))))"

text \<open>Lines 84 to 101: the body of the walk over the source folder.\<close>

definition scan_directory ::
  "env \<Rightarrow> bool \<Rightarrow> string list \<Rightarrow> path \<Rightarrow> (string \<times> node) list \<Rightarrow> state \<Rightarrow> outcome" where
  "scan_directory ev dry_run exclude_patterns relative_path listing st =
     (let replica_root = (Replica, relative_path) in
      case (if \<not> exists st replica_root \<and> \<not> dry_run then
              (case makedirs st replica_root of
                 Inl e \<Rightarrow> Inl e
               | Inr st1 \<Rightarrow> Inr (logging (Created_directory replica_root) st1))
            else Inr st) of
        Inl e \<Rightarrow> Inl e
      | Inr st1 \<Rightarrow>
          for_each (scan_file ev exclude_patterns relative_path) (files_of listing) st1)"

text \<open>Lines 113 to 121 and 123 to 131: one file, one subdirectory of the replica directory
  the pruning walk is in.\<close>

definition prune_file :: "bool \<Rightarrow> path \<Rightarrow> string \<Rightarrow> state \<Rightarrow> outcome" where
  "prune_file dry_run relative_path file_name st =
     (let replica_file = (Replica, relative_path @ [file_name]);
          source_file = (Source, relative_path @ [file_name]) in
      if \<not> exists st source_file then
        (if \<not> dry_run then
           (case os_remove st replica_file of
              Inl e \<Rightarrow> Inl e
            | Inr st1 \<Rightarrow> Inr (logging (Removed_file replica_file) st1))
         else Inr (logging (Would_remove_file replica_file) st))
      else Inr st)"

definition prune_dir :: "bool \<Rightarrow> path \<Rightarrow> string \<Rightarrow> state \<Rightarrow> outcome" where
  "prune_dir dry_run relative_path dir_name st =
     (let replica_dir = (Replica, relative_path @ [dir_name]);
          source_dir = (Source, relative_path @ [dir_name]) in
      if \<not> exists st source_dir then
        (if \<not> dry_run then
           (case rmtree st replica_dir of
              Inl e \<Rightarrow> Inl e
            | Inr st1 \<Rightarrow> Inr (logging (Removed_directory replica_dir) st1))
         else Inr (logging (Would_remove_directory replica_dir) st))
      else Inr st)"

text \<open>Lines 110 to 131: the body of the walk over the replica folder.\<close>

definition prune_directory :: "bool \<Rightarrow> path \<Rightarrow> (string \<times> node) list \<Rightarrow> state \<Rightarrow> outcome" where
  "prune_directory dry_run relative_path listing st =
     (case for_each (prune_file dry_run relative_path) (files_of listing) st of
        Inl e \<Rightarrow> Inl e
      | Inr st1 \<Rightarrow> for_each (prune_dir dry_run relative_path) (dirs_of listing) st1)"

text \<open>
  The three phases of a pass.  The worker pool of lines 105 and 106 runs
  \<^verbatim>\<open>copy_or_update_file\<close> on every pair and is joined before the pruning starts; the pairs
  name different targets, and the model runs them one after the other, in the order of
  the list.
\<close>

definition scan :: "env \<Rightarrow> bool \<Rightarrow> string list \<Rightarrow> state \<Rightarrow> outcome" where
  "scan ev dry_run exclude_patterns st =
     os_walk Source (scan_directory ev dry_run exclude_patterns)
       (st\<lparr>source_replica_pairs := []\<rparr>)"

definition apply_pairs :: "bool \<Rightarrow> state \<Rightarrow> state" where
  "apply_pairs dry_run st = fold (copy_or_update_file dry_run) (source_replica_pairs st) st"

definition prune :: "bool \<Rightarrow> state \<Rightarrow> outcome" where
  "prune dry_run st = os_walk Replica (prune_directory dry_run) st"

definition sync_folders :: "env \<Rightarrow> bool \<Rightarrow> string list \<Rightarrow> state \<Rightarrow> outcome" where
  "sync_folders ev dry_run exclude_patterns st =
     (case ensure_replica_folder dry_run st of
        Inl e \<Rightarrow> Inl e
      | Inr st1 \<Rightarrow>
     (case scan ev dry_run exclude_patterns st1 of
        Inl e \<Rightarrow> Inl e
      | Inr st2 \<Rightarrow> prune dry_run (apply_pairs dry_run st2)))"

text \<open>
  A pass starts from the two folders as they are, with an empty log; \<open>None\<close> is a folder
  that does not exist.
\<close>

definition start :: "node option \<Rightarrow> node option \<Rightarrow> state" where
  "start source_folder replica_folder =
     \<lparr>source = source_folder, replica = replica_folder, source_replica_pairs = [], log = []\<rparr>"

text \<open>
  Instances of the library parameters for the examples: a glob matcher for literal
  characters, \<open>?\<close> and \<open>*\<close>, and a digest that tells all byte strings apart.
\<close>

fun glob :: "string \<Rightarrow> string \<Rightarrow> bool" where
  "glob [] [] = True"
| "glob (c # cs) [] = False"
| "glob name (p # ps) =
     (if p = CHR ''*'' then
        (glob name ps \<or> (case name of [] \<Rightarrow> False | c # cs \<Rightarrow> glob cs (p # ps)))
      else
        (case name of
           [] \<Rightarrow> False
         | c # cs \<Rightarrow> (p = CHR ''?'' \<or> p = c) \<and> glob cs ps))"

definition example_env :: env where
  "example_env =
     \<lparr>md5_hexdigest = (\<lambda>b. b), fnmatch = glob,
      dir_stat = (\<lambda>P. \<lparr>st_size = 4096, st_mtime = 0\<rparr>)\<rparr>"

subsection \<open>Notions the properties are stated with\<close>

text \<open>A folder is well formed when no directory lists a name twice.\<close>

fun wf_entries :: "(string \<times> node) list \<Rightarrow> bool" where
  "wf_entries [] = True"
| "wf_entries ((name, File c m r w) # rest) = (name \<notin> fst ` set rest \<and> wf_entries rest)"
| "wf_entries ((name, Dir sub) # rest) =
     (name \<notin> fst ` set rest \<and> wf_entries sub \<and> wf_entries rest)"

fun wf :: "node option \<Rightarrow> bool" where
  "wf None = True"
| "wf (Some (File c m r w)) = True"
| "wf (Some (Dir es)) = wf_entries es"

text \<open>
  The entry at a path, with the listing of a directory left out: \<open>None\<close> when there is
  nothing, the file when it is a file, \<open>Dir []\<close> when it is a directory.
\<close>

fun shape :: "node \<Rightarrow> node" where
  "shape (File c m r w) = File c m r w"
| "shape (Dir es) = Dir []"

definition entry_at :: "node option \<Rightarrow> path \<Rightarrow> node option" where
  "entry_at r p = map_option shape (lookup r p)"

text \<open>The directories below a directory, each with its listing, in the order of the walk.\<close>

fun walk_list :: "path \<Rightarrow> (string \<times> node) list \<Rightarrow> (path \<times> (string \<times> node) list) list" where
  "walk_list dirpath [] = []"
| "walk_list dirpath ((name, File c m r w) # rest) = walk_list dirpath rest"
| "walk_list dirpath ((name, Dir sub) # rest) =
     (dirpath @ [name], sub) # walk_list (dirpath @ [name]) sub @ walk_list dirpath rest"

text \<open>
  What pruning a region of the replica comes to: the entries of the region with nothing at
  their path in the source are gone, every other entry is as it was, the source and the
  pending pairs are untouched, and only removal records were logged.
\<close>

definition prune_effect :: "(path \<Rightarrow> bool) \<Rightarrow> state \<Rightarrow> state \<Rightarrow> bool" where
  "prune_effect region st st' \<longleftrightarrow>
     source st' = source st \<and> source_replica_pairs st' = source_replica_pairs st \<and>
     (\<forall>q. entry_at (replica st') q =
            (if region q \<and> lookup (source st) q = None then None else entry_at (replica st) q)) \<and>
     (\<exists>L. log st' = log st @ L \<and> set L \<subseteq> range Removed_file \<union> range Removed_directory)"

text \<open>
  What the scan can do between two of its steps: the source stays, the replica stays well
  formed and only gains directories where there was nothing (none in a dry run), pairs
  are appended, each pairing a source path with the same path of the replica, its last
  name not excluded, and only records of the scan are logged.
\<close>

fun scan_record :: "log_record \<Rightarrow> bool" where
  "scan_record (Created_directory P) = True"
| "scan_record (Excluding_file n) = True"
| "scan_record (Error_hashing_file P e) = True"
| "scan_record m = False"

definition pending_pair :: "env \<Rightarrow> string list \<Rightarrow> Path \<times> Path \<Rightarrow> bool" where
  "pending_pair ev exclude_patterns pair \<longleftrightarrow>
     (\<exists>p. pair = ((Source, p), (Replica, p)) \<and> p \<noteq> [] \<and>
          \<not> should_exclude ev (last p) exclude_patterns)"

definition scan_step :: "env \<Rightarrow> bool \<Rightarrow> string list \<Rightarrow> state \<Rightarrow> state \<Rightarrow> bool" where
  "scan_step ev dry_run exclude_patterns st st' \<longleftrightarrow>
     source st' = source st \<and>
     (wf (replica st) \<longrightarrow> wf (replica st')) \<and>
     (dry_run \<longrightarrow> replica st' = replica st) \<and>
     (\<forall>q. entry_at (replica st') q = entry_at (replica st) q \<or>
          (entry_at (replica st) q = None \<and> entry_at (replica st') q = Some (Dir []))) \<and>
     (\<exists>P. source_replica_pairs st' = source_replica_pairs st @ P \<and>
          (\<forall>pair\<in>set P. pending_pair ev exclude_patterns pair)) \<and>
     (\<exists>L. log st' = log st @ L \<and> (\<forall>m\<in>set L. scan_record m))"

text \<open>The record a pair leaves in the log when its copy is attempted in a real pass.\<close>

definition attempt_record :: "Path \<times> Path \<Rightarrow> log_record \<Rightarrow> bool" where
  "attempt_record pair m =
     (m = Copied_Updated_file (fst pair) (snd pair) \<or>
      (\<exists>e. m = Failed_to_copy (fst pair) (snd pair) e))"

text \<open>
  What the copies of a real pass can do: the source and the list of pairs stay, the
  replica stays well formed, an entry of the replica changes only by becoming the copy of
  the source file of a pair, at the path of the pair or (when a directory is in the way)
  inside that directory under the file's name, and each record logged is the record of
  the attempt of a pair.
\<close>

definition apply_step :: "(Path \<times> Path) list \<Rightarrow> state \<Rightarrow> state \<Rightarrow> bool" where
  "apply_step pairs st st' \<longleftrightarrow>
     source st' = source st \<and> source_replica_pairs st' = source_replica_pairs st \<and>
     (wf (replica st) \<longrightarrow> wf (replica st')) \<and>
     (\<forall>q. entry_at (replica st') q = entry_at (replica st) q \<or>
          (entry_at (replica st) q \<noteq> Some (Dir []) \<and>
           (\<exists>p c m r w. ((Source, p), (Replica, p)) \<in> set pairs \<and> (q = p \<or> q = p @ [last p]) \<and>
                lookup (source st) p = Some (File c m r w) \<and>
                entry_at (replica st') q = Some (File c m r w)))) \<and>
     (\<exists>L. log st' = log st @ L \<and> (\<forall>m\<in>set L. \<exists>pair\<in>set pairs. attempt_record pair m))"

text \<open>Two files of the same size and time that cannot be read.\<close>

definition unreadable_pair :: state where
  "unreadable_pair =
     start (Some (Dir [(''a'', File ''hello'' 5 False True)]))
           (Some (Dir [(''a'', File ''jello'' 5 False True)]))"


text \<open>
  A replica with a file \<open>a\<close> where the source has a directory \<open>a\<close> with a subdirectory,
  and a file \<open>o\<close> that the source does not have.
\<close>

definition blocked_replica :: state where
  "blocked_replica =
     start (Some (Dir [(''a'', Dir [(''b'', Dir [])])]))
           (Some (Dir [(''a'', File ''x'' 0 True True), (''o'', File ''y'' 0 True True)]))"

text \<open>The source has \<open>a.txt\<close>; the replica has only \<open>orphan.txt\<close>.\<close>

definition orphan_example :: state where
  "orphan_example =
     start (Some (Dir [(''a.txt'', File ''hello'' 10 True True)]))
           (Some (Dir [(''orphan.txt'', File ''old'' 5 True True)]))"

text \<open>
  A file synced by an earlier pass and changed in the source since; its name matches the
  pattern \<open>*.tmp\<close>, added before this pass.
\<close>

definition excluded_example :: state where
  "excluded_example =
     start (Some (Dir [(''keep.tmp'', File ''v2'' 2 True True)]))
           (Some (Dir [(''keep.tmp'', File ''v1'' 1 True True)]))"





text \<open>
  Two nodes that the comparator tells to be the same without logging anything: two
  readable files of one size, the one of the replica not older, with equal digests.
\<close>

fun in_sync :: "env \<Rightarrow> node \<Rightarrow> node \<Rightarrow> bool" where
  "in_sync ev (File c m r w) (File c' m' r' w') \<longleftrightarrow>
     r \<and> r' \<and> length c = length c' \<and> m \<le> m' \<and> md5_hexdigest ev c = md5_hexdigest ev c'"
| "in_sync ev (Dir es) y \<longleftrightarrow> False"
| "in_sync ev (File c m r w) (Dir es) \<longleftrightarrow> False"

text \<open>The records of level \<^verbatim>\<open>ERROR\<close> that a pass can log for the file at a path.\<close>

definition item_error :: "path \<Rightarrow> log_record \<Rightarrow> bool" where
  "item_error q m \<longleftrightarrow>
     (\<exists>e. m = Failed_to_copy (Source, q) (Replica, q) e \<or>
          m = Error_hashing_file (Source, q) e \<or> m = Error_hashing_file (Replica, q) e)"

text \<open>
  How a pass leaves a file \<open>x\<close> of the source, at the path \<open>q\<close>, when \<open>R0\<close> is the
  replica it started with: the replica holds at \<open>q\<close> a readable file that the comparator
  tells to be the same, which is the copy of \<open>x\<close> or the file that was there at the
  start; or an error was logged for \<open>q\<close>; or the replica had a directory at \<open>q\<close>.
\<close>

definition settled :: "env \<Rightarrow> node option \<Rightarrow> path \<Rightarrow> node \<Rightarrow> state \<Rightarrow> bool" where
  "settled ev R0 q x s \<longleftrightarrow>
     (\<exists>y. lookup (replica s) q = Some y \<and> in_sync ev x y \<and> (y = x \<or> lookup R0 q = Some y)) \<or>
     (\<exists>m\<in>set (log s). item_error q m) \<or>
     (\<exists>l. lookup R0 q = Some (Dir l))"

text \<open>
  A source with a directory and a file whose names both match \<open>*.tmp\<close>, and an empty
  replica.
\<close>

definition tmp_directory :: state where
  "tmp_directory =
     start (Some (Dir [(''logs.tmp'', Dir [(''a.txt'', File ''hi'' 1 True True)]),
                       (''junk.tmp'', File ''zz'' 1 True True)]))
           (Some (Dir []))"

text \<open>A source with a directory, a file in it and a file beside it; no replica yet.\<close>

definition fresh_replica :: state where
  "fresh_replica =
     start (Some (Dir [(''d'', Dir [(''a'', File ''one'' 1 True True)]),
                       (''b'', File ''two'' 2 True True)]))
           None"

text \<open>The replica has a directory \<open>x\<close> where the source has a file \<open>x\<close>.\<close>

definition directory_in_the_way :: state where
  "directory_in_the_way =
     start (Some (Dir [(''x'', File ''data'' 1 True True)]))
           (Some (Dir [(''x'', Dir [])]))"

section \<open>Properties\<close>

subsection \<open>Records and system calls\<close>

lemma root_upd [simp]:
  "root (st\<lparr>log := l\<rparr>) sd = root st sd"
  "root (st\<lparr>source_replica_pairs := ps\<rparr>) sd = root st sd"
  by (cases sd; simp)+

lemma set_root_upd [simp]:
  "set_root (st\<lparr>log := l\<rparr>) sd r = (set_root st sd r)\<lparr>log := l\<rparr>"
  "set_root (st\<lparr>source_replica_pairs := ps\<rparr>) sd r = (set_root st sd r)\<lparr>source_replica_pairs := ps\<rparr>"
  by (cases sd; simp)+

lemma set_root_fields [simp]:
  "log (set_root st sd r) = log st"
  "source_replica_pairs (set_root st sd r) = source_replica_pairs st"
  "root (set_root st sd r) sd' = (if sd' = sd then r else root st sd')"
  by (cases sd; cases sd'; simp)+

lemma node_at_upd [simp]:
  "node_at (st\<lparr>log := l\<rparr>) P = node_at st P"
  "node_at (st\<lparr>source_replica_pairs := ps\<rparr>) P = node_at st P"
  by (simp_all add: node_at_def)

lemma isdir_upd [simp]:
  "isdir (st\<lparr>log := l\<rparr>) P = isdir st P"
  "isdir (st\<lparr>source_replica_pairs := ps\<rparr>) P = isdir st P"
  by (simp_all add: isdir_def)


subsection \<open>The comparator\<close>

declare read_chunks.simps [simp del]

text \<open>Feeding the digest chunk by chunk feeds it the whole file.\<close>

lemma read_chunks_append: "read_chunks hash_md5 f = hash_md5 @ f"
proof (induction hash_md5 f rule: read_chunks.induct)
  case (1 hash_md5 f)
  show ?case
  proof (cases "take 4096 f = []")
    case True
    then have "f = []" by simp
    then show ?thesis by (simp add: read_chunks.simps)
  next
    case False
    then have "read_chunks hash_md5 f = read_chunks (hash_md5 @ take 4096 f) (drop 4096 f)"
      by (subst read_chunks.simps) simp
    also have "\<dots> = (hash_md5 @ take 4096 f) @ drop 4096 f"
      using 1 False by simp
    finally show ?thesis by simp
  qed
qed

lemma hash_file_eq:
  "hash_file ev st P =
     (case open_rb st P of
        Inr f \<Rightarrow> (Some (md5_hexdigest ev f), st)
      | Inl e \<Rightarrow> (None, logging (Error_hashing_file P e) st))"
  by (simp add: hash_file_def read_chunks_append split: sum.splits)

lemma open_rb_logging [simp]: "open_rb (logging m st) P = open_rb st P"
  by (simp add: open_rb_def logging_def)

text \<open>
  C4.  For two existing, readable files the comparator answers by the short-circuit
  policy: different when the sizes differ; otherwise different when the source is
  strictly newer; otherwise different exactly when the digests of the two contents are
  unequal.  Nothing is logged and nothing changes.  So a source file of unchanged size and
  a time that is not newer, but with other bytes, is told apart by the digests.
\<close>

theorem files_are_different_policy:
  assumes "node_at st source_file = Some (File c1 m1 True w1)"
      and "node_at st replica_file = Some (File c2 m2 True w2)"
  shows "files_are_different ev st source_file replica_file =
           Inr (if length c1 \<noteq> length c2 then True
                else if m1 > m2 then True
                else md5_hexdigest ev c1 \<noteq> md5_hexdigest ev c2, st)"
  using assms
  by (simp add: files_are_different_def stat_def hash_file_eq open_rb_def)

theorem files_are_different_policy_witness:
  "files_are_different example_env
     (start (Some (Dir [(''a'', File ''hello'' 5 True True)]))
            (Some (Dir [(''a'', File ''jello'' 5 True True)])))
     (Source, [''a'']) (Replica, [''a'']) =
   Inr (True, start (Some (Dir [(''a'', File ''hello'' 5 True True)]))
                    (Some (Dir [(''a'', File ''jello'' 5 True True)])))"
  using files_are_different_policy
    [of "start (Some (Dir [(''a'', File ''hello'' 5 True True)]))
               (Some (Dir [(''a'', File ''jello'' 5 True True)]))"
        "(Source, [''a''])" "''hello''" 5 True "(Replica, [''a''])" "''jello''" 5 True example_env]
  by (simp add: node_at_def start_def example_env_def)

text \<open>
  C5.  When the comparator gets to the digests (equal sizes, source not newer), a file
  that cannot be opened makes \<^verbatim>\<open>hash_file\<close> log one error record naming the file, and
  nothing else changes.  If one digest fails the pair counts as different; if both fail
  the two missing digests compare equal and the pair counts as unchanged, with the two
  error records in the log.
\<close>

theorem digest_failure_is_logged:
  assumes "stat ev st source_file = Inr s"
      and "stat ev st replica_file = Inr r"
      and "st_size s = st_size r"
      and "\<not> st_mtime s > st_mtime r"
  shows "files_are_different ev st source_file replica_file =
           (case (open_rb st source_file, open_rb st replica_file) of
              (Inr f1, Inr f2) \<Rightarrow> Inr (md5_hexdigest ev f1 \<noteq> md5_hexdigest ev f2, st)
            | (Inl e1, Inr f2) \<Rightarrow> Inr (True, logging (Error_hashing_file source_file e1) st)
            | (Inr f1, Inl e2) \<Rightarrow> Inr (True, logging (Error_hashing_file replica_file e2) st)
            | (Inl e1, Inl e2) \<Rightarrow>
                Inr (False, logging (Error_hashing_file replica_file e2)
                              (logging (Error_hashing_file source_file e1) st)))"
  using assms
  by (simp add: files_are_different_def hash_file_eq split: sum.splits)

theorem digest_failure_is_logged_witness:
  "files_are_different example_env unreadable_pair (Source, [''a'']) (Replica, [''a'']) =
   Inr (False, unreadable_pair\<lparr>log :=
      [Error_hashing_file (Source, [''a'']) PermissionError,
       Error_hashing_file (Replica, [''a'']) PermissionError]\<rparr>)"
  using digest_failure_is_logged
    [of example_env unreadable_pair "(Source, [''a''])" "\<lparr>st_size = 5, st_mtime = 5\<rparr>"
        "(Replica, [''a''])" "\<lparr>st_size = 5, st_mtime = 5\<rparr>"]
  by (simp add: unreadable_pair_def stat_def open_rb_def node_at_def start_def logging_def)

subsection \<open>The copies\<close>

lemma copy2_fails_unchanged: "copy2 st s d = Inl (e, st') \<Longrightarrow> st' = st"
  by (auto simp: copy2_def Let_def split: option.splits node.splits if_splits)






subsection \<open>Trees and paths\<close>

lemma lookup_append: "lookup r (p @ q) = lookup (lookup r p) q"
proof (induction p arbitrary: r)
  case Nil
  show ?case by (cases r) simp_all
next
  case (Cons x p)
  show ?case
  proof (cases r)
    case None
    then show ?thesis by simp
  next
    case (Some n)
    then show ?thesis using Cons by (cases n) simp_all
  qed
qed

lemma entry_at_None [simp]: "entry_at None p = None"
  by (simp add: entry_at_def)

lemma entry_at_append: "entry_at r (p @ q) = entry_at (lookup r p) q"
  by (simp add: entry_at_def lookup_append)

lemma entry_at_eq_None: "entry_at r p = None \<longleftrightarrow> lookup r p = None"
  by (simp add: entry_at_def)

lemma entry_at_eq_File:
  "entry_at r p = Some (File c m rd w) \<longleftrightarrow> lookup r p = Some (File c m rd w)"
proof (cases "lookup r p")
  case None
  then show ?thesis by (simp add: entry_at_def)
next
  case (Some n)
  then show ?thesis by (cases n) (simp_all add: entry_at_def)
qed

lemma entry_at_eq_Dir:
  "entry_at r p = Some (Dir es') \<longleftrightarrow> es' = [] \<and> (\<exists>es. lookup r p = Some (Dir es))"
proof (cases "lookup r p")
  case None
  then show ?thesis by (simp add: entry_at_def)
next
  case (Some n)
  then show ?thesis by (cases n) (auto simp: entry_at_def)
qed

lemma entry_at_Nil [simp]:
  "entry_at (Some (File c m rd w)) [] = Some (File c m rd w)"
  "entry_at (Some (Dir es)) [] = Some (Dir [])"
  by (simp_all add: entry_at_def)

lemma entry_at_Cons [simp]:
  "entry_at (Some (File c m rd w)) (x # p) = None"
  "entry_at (Some (Dir es)) (x # p) = entry_at (map_of es x) p"
  by (simp_all add: entry_at_def)

lemma map_of_replace_other:
  "y \<noteq> x \<Longrightarrow> map_of (map (\<lambda>(k, v). if k = x then (k, c) else (k, v)) es) y = map_of es y"
proof (induction es)
  case Nil
  show ?case by simp
next
  case (Cons e es)
  then show ?case by (cases e) simp
qed

lemma map_of_replace_same:
  "x \<in> fst ` set es \<Longrightarrow> map_of (map (\<lambda>(k, v). if k = x then (k, c) else (k, v)) es) x = Some c"
proof (induction es)
  case Nil
  then show ?case by simp
next
  case (Cons e es)
  then show ?case by (cases e) auto
qed

lemma map_of_set_entry [simp]:
  "map_of (set_entry es x c) y = (if y = x then Some c else map_of es y)"
proof (cases "x \<in> fst ` set es")
  case True
  then show ?thesis
    by (simp add: set_entry_def map_of_replace_other map_of_replace_same)
next
  case False
  then have "map_of es x = None" by (simp add: map_of_eq_None_iff)
  with False show ?thesis
    by (simp add: set_entry_def map_add_def split: option.splits)
qed

lemma map_of_remove_entry [simp]:
  "map_of (remove_entry es x) y = (if y = x then None else map_of es y)"
  unfolding remove_entry_def by (induction es) auto

lemma entry_at_unlink:
  "entry_at (unlink r p) q = (if prefix p q then None else entry_at r q)"
proof (induction p arbitrary: r q)
  case Nil
  show ?case by simp
next
  case (Cons x p)
  show ?case
  proof (cases r)
    case None
    then show ?thesis by simp
  next
    case (Some n)
    show ?thesis
    proof (cases n)
      case (File c m rd w)
      with Some show ?thesis by (cases q) auto
    next
      case (Dir es)
      show ?thesis
      proof (cases q)
        case Nil
        with Some Dir show ?thesis by (simp split: option.splits)
      next
        case (Cons y q')
        have IH: "entry_at (unlink (map_of es x) p) q' =
                  (if prefix p q' then None else entry_at (map_of es x) q')"
          by (rule Cons.IH)
        show ?thesis
        proof (cases "unlink (map_of es x) p")
          case None
          with IH Some Dir Cons show ?thesis by auto
        next
          case (Some c)
          with IH \<open>r = Some n\<close> Dir Cons show ?thesis by auto
        qed
      qed
    qed
  qed
qed

lemma put_not_None: "r \<noteq> None \<Longrightarrow> p \<noteq> [] \<Longrightarrow> put r p n \<noteq> None"
proof (cases r)
  case None
  assume "r \<noteq> None" with None show ?thesis by simp
next
  case (Some a)
  assume "p \<noteq> []"
  then obtain x p' where "p = x # p'" by (cases p) auto
  with Some show ?thesis by (cases a) (simp_all split: option.splits)
qed

lemma entry_at_put_file:
  assumes "lookup r (butlast p) = Some (Dir es0)" and "p \<noteq> []"
  shows "entry_at (put r p (File c m rd w)) q =
           (if q = p then Some (File c m rd w) else if prefix p q then None else entry_at r q)"
  using assms
proof (induction p arbitrary: r q es0)
  case Nil
  then show ?case by simp
next
  case (Cons x p)
  show ?case
  proof (cases p)
    case Nil
    with Cons.prems have r: "r = Some (Dir es0)" by (cases r) simp_all
    show ?thesis
    proof (cases q)
      case Nil
      with r \<open>p = []\<close> show ?thesis by simp
    next
      case (Cons y q')
      with r \<open>p = []\<close> show ?thesis by (cases q') auto
    qed
  next
    case (Cons x' p')
    with Cons.prems obtain es where r: "r = Some (Dir es)"
      and sub: "lookup (map_of es x) (butlast p) = Some (Dir es0)"
      by (cases r; cases "the r") auto
    have pne: "p \<noteq> []" using Cons by simp
    have IH: "entry_at (put (map_of es x) p (File c m rd w)) q' =
        (if q' = p then Some (File c m rd w) else if prefix p q' then None
         else entry_at (map_of es x) q')" for q'
      using Cons.IH [OF sub pne] .
    have "map_of es x \<noteq> None" using sub by (cases "map_of es x") auto
    then obtain c' where c': "put (map_of es x) p (File c m rd w) = Some c'"
      using put_not_None [OF _ pne] by blast
    show ?thesis
    proof (cases q)
      case Nil
      with r c' show ?thesis by simp
    next
      case (Cons y q')
      with r c' IH [of q'] show ?thesis by auto
    qed
  qed
qed

lemma entry_at_mkdirs:
  "mkdirs r p = Inr n \<Longrightarrow>
   entry_at (Some n) q = (if prefix q p then Some (Dir []) else entry_at r q)"
proof (induction p arbitrary: r n q)
  case Nil
  then have n: "n = Dir []" and r: "r = None"
    by (cases r; cases "the r"; simp)+
  show ?case using n r by (cases q) auto
next
  case (Cons x p)
  show ?case
  proof (cases r)
    case None
    with Cons.prems obtain c where c: "mkdirs None p = Inr c" and n: "n = Dir [(x, c)]"
      by (auto split: sum.splits)
    from Cons.IH [OF c] have IH: "entry_at (Some c) q' =
        (if prefix q' p then Some (Dir []) else None)" for q'
      by simp
    show ?thesis using None n IH by (cases q) auto
  next
    case (Some a)
    show ?thesis
    proof (cases a)
      case (File c m rd w)
      with Some Cons.prems show ?thesis by simp
    next
      case (Dir es)
      with Some Cons.prems obtain c where c: "mkdirs (map_of es x) p = Inr c"
        and n: "n = Dir (set_entry es x c)"
        by (auto split: sum.splits)
      from Cons.IH [OF c] have IH: "entry_at (Some c) q' =
          (if prefix q' p then Some (Dir []) else entry_at (map_of es x) q')" for q'
        by simp
      show ?thesis using Some Dir n IH by (cases q) auto
    qed
  qed
qed

lemma mkdirs_fresh: "mkdirs r p = Inr n \<Longrightarrow> lookup r p = None"
proof (induction p arbitrary: r n)
  case Nil
  then show ?case by (cases r; cases "the r"; simp)
next
  case (Cons x p)
  show ?case
  proof (cases r)
    case None
    then show ?thesis by simp
  next
    case (Some a)
    with Cons show ?thesis by (cases a) (auto split: sum.splits)
  qed
qed

lemma mkdirs_prefix:
  "mkdirs r p = Inr n \<Longrightarrow> prefix q p \<Longrightarrow> lookup r q \<noteq> Some (File c m rd w)"
proof (induction p arbitrary: r n q)
  case Nil
  then show ?case by (cases r; cases "the r"; simp)
next
  case (Cons x p)
  show ?case
  proof (cases r)
    case None
    then show ?thesis by simp
  next
    case (Some a)
    show ?thesis
    proof (cases a)
      case (File c' m' rd' w')
      with Some Cons.prems show ?thesis by simp
    next
      case (Dir es)
      with Some Cons.prems obtain c' where c: "mkdirs (map_of es x) p = Inr c'"
        by (auto split: sum.splits)
      show ?thesis
      proof (cases q)
        case Nil
        with Some Dir show ?thesis by simp
      next
        case (Cons y q')
        with Cons.prems have "y = x" "prefix q' p" by simp_all
        with Cons.IH [OF c, of q'] Some Dir Cons show ?thesis by simp
      qed
    qed
  qed
qed

lemma mkdirs_succeeds:
  assumes "lookup r p = None"
      and "\<And>q c m rd w. prefix q p \<Longrightarrow> lookup r q \<noteq> Some (File c m rd w)"
  shows "\<exists>n. mkdirs r p = Inr n"
  using assms
proof (induction p arbitrary: r)
  case Nil
  then show ?case by (cases r) simp_all
next
  case (Cons x p)
  show ?case
  proof (cases r)
    case None
    have "\<exists>n. mkdirs None p = Inr n" by (induction p) auto
    with None show ?thesis by auto
  next
    case (Some a)
    show ?thesis
    proof (cases a)
      case (File c m rd w)
      with Some Cons.prems(2) [of "[]" c m rd w] show ?thesis by simp
    next
      case (Dir es)
      have 1: "lookup (map_of es x) p = None" using Cons.prems(1) Some Dir by simp
      have 2: "lookup (map_of es x) q \<noteq> Some (File c m rd w)" if "prefix q p" for q c m rd w
        using Cons.prems(2) [of "x # q" c m rd w] that Some Dir by simp
      from Cons.IH [OF 1 2] obtain n where "mkdirs (map_of es x) p = Inr n" by blast
      with Some Dir show ?thesis by simp
    qed
  qed
qed

text \<open>The system calls keep a well-formed tree well formed.\<close>

lemma wf_entries_distinct: "wf_entries es \<Longrightarrow> distinct (map fst es)"
  by (induction es rule: wf_entries.induct) simp_all

lemma wf_entries_sub: "wf_entries es \<Longrightarrow> (n, Dir sub) \<in> set es \<Longrightarrow> wf_entries sub"
  by (induction es rule: wf_entries.induct) auto

lemma wf_entriesI:
  "distinct (map fst es) \<Longrightarrow> (\<And>n sub. (n, Dir sub) \<in> set es \<Longrightarrow> wf_entries sub) \<Longrightarrow> wf_entries es"
proof (induction es rule: wf_entries.induct)
  case 1
  show ?case by simp
next
  case (2 name c m r w rest)
  have "wf_entries rest"
  proof (rule 2(1))
    show "distinct (map fst rest)" using 2(2) by simp
    show "wf_entries sub" if "(n, Dir sub) \<in> set rest" for n sub
      using 2(3) [of n sub] that by simp
  qed
  with 2(2) show ?case by simp
next
  case (3 name sub rest)
  have "wf_entries rest"
  proof (rule 3(2))
    show "distinct (map fst rest)" using 3(3) by simp
    show "wf_entries s" if "(n, Dir s) \<in> set rest" for n s
      using 3(4) [of n s] that by simp
  qed
  moreover have "wf_entries sub" using 3(4) [of name sub] by simp
  ultimately show ?case using 3(3) by simp
qed

lemma wf_entries_map_of: "wf_entries es \<Longrightarrow> (n, v) \<in> set es \<Longrightarrow> map_of es n = Some v"
  by (simp add: wf_entries_distinct)

lemma wf_child: "wf (Some (Dir es)) \<Longrightarrow> wf (map_of es x)"
proof (cases "map_of es x")
  case None
  then show ?thesis by simp
next
  case (Some v)
  assume "wf (Some (Dir es))"
  then have w: "wf_entries es" by simp
  from Some have "(x, v) \<in> set es" by (rule map_of_SomeD)
  with w Some show ?thesis by (cases v) (auto dest: wf_entries_sub)
qed

lemma wf_lookup: "wf r \<Longrightarrow> wf (lookup r p)"
proof (induction p arbitrary: r)
  case Nil
  then show ?case by (cases r) simp_all
next
  case (Cons x p)
  show ?case
  proof (cases r)
    case None
    then show ?thesis by simp
  next
    case (Some a)
    show ?thesis
    proof (cases a)
      case File
      with Some show ?thesis by simp
    next
      case (Dir es)
      have "wf (map_of es x)" using Cons.prems Some Dir by (simp add: wf_child del: wf.simps)
      then have "wf (lookup (map_of es x) p)" by (rule Cons.IH)
      with Some Dir show ?thesis by simp
    qed
  qed
qed

lemma set_set_entry:
  "set (set_entry es x c) \<subseteq> insert (x, c) (set es)"
  by (auto simp: set_entry_def split: if_splits)

lemma fst_set_entry:
  "map fst (set_entry es x c) = (if x \<in> fst ` set es then map fst es else map fst es @ [x])"
proof -
  have "map fst (map (\<lambda>(k, v). if k = x then (k, c) else (k, v)) es) = map fst es"
    by (induction es) auto
  then show ?thesis by (simp add: set_entry_def)
qed

lemma wf_set_entry:
  assumes "wf_entries es" and "wf (Some c)"
  shows "wf_entries (set_entry es x c)"
proof -
  have d: "distinct (map fst (set_entry es x c))"
    using assms(1) by (auto simp: fst_set_entry wf_entries_distinct)
  have "wf_entries sub" if "(n, Dir sub) \<in> set (set_entry es x c)" for n sub
  proof -
    from that set_set_entry have "(n, Dir sub) = (x, c) \<or> (n, Dir sub) \<in> set es" by fastforce
    then show ?thesis using assms by (auto dest: wf_entries_sub)
  qed
  with d show ?thesis by (rule wf_entriesI)
qed

lemma wf_remove_entry:
  assumes "wf_entries es"
  shows "wf_entries (remove_entry es x)"
proof -
  have "distinct (map fst (remove_entry es x))"
    using assms by (simp add: remove_entry_def wf_entries_distinct distinct_map_filter)
  moreover have "wf_entries sub" if "(n, Dir sub) \<in> set (remove_entry es x)" for n sub
    using that assms by (auto simp: remove_entry_def dest: wf_entries_sub)
  ultimately show ?thesis by (rule wf_entriesI)
qed

lemma wf_unlink: "wf r \<Longrightarrow> wf (unlink r p)"
proof (induction p arbitrary: r)
  case Nil
  show ?case by simp
next
  case (Cons x p)
  show ?case
  proof (cases r)
    case None
    then show ?thesis by simp
  next
    case (Some a)
    show ?thesis
    proof (cases a)
      case (File c m rd w)
      with Some show ?thesis by simp
    next
      case (Dir es)
      with Some Cons.prems have w: "wf_entries es" by simp
      have "wf (map_of es x)" using Cons.prems Some Dir by (simp add: wf_child del: wf.simps)
      then have "wf (unlink (map_of es x) p)" by (rule Cons.IH)
      with w Some Dir show ?thesis
        by (auto simp: wf_set_entry wf_remove_entry split: option.splits)
    qed
  qed
qed

lemma wf_put_file: "wf r \<Longrightarrow> wf (put r p (File c m rd w))"
proof (induction p arbitrary: r)
  case Nil
  show ?case by simp
next
  case (Cons x p)
  show ?case
  proof (cases r)
    case None
    then show ?thesis by simp
  next
    case (Some a)
    show ?thesis
    proof (cases a)
      case File
      with Some show ?thesis by simp
    next
      case (Dir es)
      with Some Cons.prems have w: "wf_entries es" by simp
      have "wf (map_of es x)" using Cons.prems Some Dir by (simp add: wf_child del: wf.simps)
      then have "wf (put (map_of es x) p (File c m rd w))" by (rule Cons.IH)
      with w Some Dir show ?thesis
        by (auto simp: wf_set_entry split: option.splits)
    qed
  qed
qed

lemma wf_mkdirs: "wf r \<Longrightarrow> mkdirs r p = Inr n \<Longrightarrow> wf (Some n)"
proof (induction p arbitrary: r n)
  case Nil
  show ?case
  proof (cases r)
    case None
    with Nil show ?thesis by auto
  next
    case (Some a)
    with Nil show ?thesis by (cases a) simp_all
  qed
next
  case (Cons x p)
  show ?case
  proof (cases r)
    case None
    with Cons.prems obtain c where c: "mkdirs None p = Inr c" and n: "n = Dir [(x, c)]"
      by (auto split: sum.splits)
    have "wf (Some c)" using Cons.IH [OF _ c] by simp
    with n show ?thesis by (cases c) simp_all
  next
    case (Some a)
    show ?thesis
    proof (cases a)
      case File
      with Some Cons.prems show ?thesis by simp
    next
      case (Dir es)
      with Some Cons.prems obtain c where c: "mkdirs (map_of es x) p = Inr c"
        and n: "n = Dir (set_entry es x c)"
        by (auto split: sum.splits)
      from Some Dir Cons.prems have w: "wf_entries es" by simp
      have "wf (map_of es x)" using Cons.prems Some Dir by (simp add: wf_child del: wf.simps)
      then have "wf (Some c)" using c by (rule Cons.IH)
      with w n show ?thesis by (simp add: wf_set_entry)
    qed
  qed
qed

subsection \<open>The list of directories of a walk\<close>

lemma walk_list_sound:
  "wf_entries es \<Longrightarrow> (d', l') \<in> set (walk_list d es) \<Longrightarrow>
   \<exists>q. d' = d @ q \<and> q \<noteq> [] \<and> lookup (Some (Dir es)) q = Some (Dir l') \<and> wf_entries l'"
proof (induction d es arbitrary: d' l' rule: walk_list.induct)
  case (1 dirpath)
  then show ?case by simp
next
  case (2 dirpath name c m r w rest)
  then obtain q where q: "d' = dirpath @ q" "q \<noteq> []" "lookup (Some (Dir rest)) q = Some (Dir l')"
    "wf_entries l'" by auto
  then obtain x q' where xq: "q = x # q'" by (cases q) auto
  with q have "map_of rest x \<noteq> None" by (cases "map_of rest x") auto
  then have "x \<in> fst ` set rest" by (simp add: map_of_eq_None_iff)
  with 2 have "x \<noteq> name" by auto
  with q xq show ?case by auto
next
  case (3 dirpath name sub rest)
  from "3.prems" consider "d' = dirpath @ [name]" "l' = sub"
    | "(d', l') \<in> set (walk_list (dirpath @ [name]) sub)"
    | "(d', l') \<in> set (walk_list dirpath rest)" by auto
  then show ?case
  proof cases
    case 1
    with "3.prems" show ?thesis by (intro exI [of _ "[name]"]) simp
  next
    case 2
    with 3 obtain q where q: "d' = (dirpath @ [name]) @ q" "q \<noteq> []"
      "lookup (Some (Dir sub)) q = Some (Dir l')" "wf_entries l'" by auto
    then show ?thesis by (intro exI [of _ "name # q"]) simp
  next
    case 3
    with "3.IH"(2) "3.prems" obtain q where q: "d' = dirpath @ q" "q \<noteq> []"
      "lookup (Some (Dir rest)) q = Some (Dir l')" "wf_entries l'" by auto
    then obtain x q' where xq: "q = x # q'" by (cases q) auto
    with q have "map_of rest x \<noteq> None" by (cases "map_of rest x") auto
    then have "x \<in> fst ` set rest" by (simp add: map_of_eq_None_iff)
    with "3.prems" have "x \<noteq> name" by auto
    with q xq show ?thesis by auto
  qed
qed

lemma walk_list_complete:
  "q \<noteq> [] \<Longrightarrow> lookup (Some (Dir es)) q = Some (Dir l') \<Longrightarrow> (d @ q, l') \<in> set (walk_list d es)"
proof (induction d es arbitrary: q l' rule: walk_list.induct)
  case (1 dirpath)
  then show ?case by (cases q) auto
next
  case (2 dirpath name c m r w rest)
  then obtain x q' where xq: "q = x # q'" by (cases q) auto
  show ?case
  proof (cases "x = name")
    case True
    with 2 xq show ?thesis by (cases q') auto
  next
    case False
    with 2 xq show ?thesis by auto
  qed
next
  case (3 dirpath name sub rest)
  then obtain x q' where xq: "q = x # q'" by (cases q) auto
  show ?case
  proof (cases "x = name")
    case True
    show ?thesis
    proof (cases q')
      case Nil
      with True xq "3.prems" show ?thesis by simp
    next
      case (Cons y q'')
      with True xq "3.prems" have "lookup (Some (Dir sub)) q' = Some (Dir l')" "q' \<noteq> []" by simp_all
      from "3.IH"(1) [OF this(2) this(1)] True xq show ?thesis by simp
    qed
  next
    case False
    with "3.prems" xq have "lookup (Some (Dir rest)) q = Some (Dir l')" by simp
    from "3.IH"(2) [OF "3.prems"(1) this] show ?thesis by simp
  qed
qed

subsection \<open>Loops\<close>

lemma for_each_append:
  "for_each body (xs @ ys) st =
     (case for_each body xs st of Inl e \<Rightarrow> Inl e | Inr st' \<Rightarrow> for_each body ys st')"
  by (induction xs arbitrary: st) (auto split: sum.splits)

lemma for_each_rel:
  assumes refl: "\<And>s. R s s"
      and trans: "\<And>a b c. R a b \<Longrightarrow> R b c \<Longrightarrow> R a c"
      and body: "\<And>x s s'. x \<in> set xs \<Longrightarrow> body x s = Inr s' \<Longrightarrow> R s s'"
      and run: "for_each body xs st = Inr st'"
  shows "R st st'"
  using body run
proof (induction xs arbitrary: st)
  case Nil
  then show ?case using refl by simp
next
  case (Cons x xs)
  from Cons.prems(2) obtain s1 where s1: "body x st = Inr s1" "for_each body xs s1 = Inr st'"
    by (auto split: sum.splits)
  have "R st s1" using Cons.prems(1) [of x st s1] s1(1) by simp
  moreover have "R s1 st'"
  proof (rule Cons.IH [OF _ s1(2)])
    show "R s s'" if "y \<in> set xs" "body y s = Inr s'" for y s s'
      using Cons.prems(1) [of y s s'] that by simp
  qed
  ultimately show ?case by (rule trans)
qed

lemma fold_rel:
  assumes refl: "\<And>s. R s s"
      and trans: "\<And>a b c. R a b \<Longrightarrow> R b c \<Longrightarrow> R a c"
      and body: "\<And>x s. x \<in> set xs \<Longrightarrow> R s (f x s)"
  shows "R st (fold f xs st)"
  using body
proof (induction xs arbitrary: st)
  case Nil
  then show ?case using refl by simp
next
  case (Cons x xs)
  have "R st (f x st)" using Cons.prems [of x st] by simp
  moreover have "R (f x st) (fold f xs (f x st))"
  proof (rule Cons.IH)
    show "R s (f y s)" if "y \<in> set xs" for y s
      using Cons.prems [of y s] that by simp
  qed
  ultimately show ?case using trans by auto
qed

text \<open>
  A walk over a folder that the loop body leaves alone is the loop over the list of its
  directories.
\<close>

lemma lookup_Nil [simp]: "lookup r [] = r"
  by (cases r) simp_all

lemma isdir_iff: "isdir st (sd, p) \<longleftrightarrow> (\<exists>es. lookup (root st sd) p = Some (Dir es))"
  by (auto simp: isdir_def node_at_def split: option.splits node.splits)

lemma os_walk_dirs_static:
  assumes frame: "\<And>d l s s'. body d l s = Inr s' \<Longrightarrow> root s' sd = root s sd"
      and "wf_entries es"
      and "\<And>n sub. (n, Dir sub) \<in> set es \<Longrightarrow> lookup (root st sd) (d @ [n]) = Some (Dir sub)"
  shows "os_walk_dirs sd body d es st = for_each (\<lambda>(d', l'). body d' l') (walk_list d es) st"
  using assms
proof (induction sd body d es st rule: os_walk_dirs.induct)
  case (1 sd body dirpath st)
  show ?case by simp
next
  case (2 sd body dirpath name c m r w rest st)
  have "os_walk_dirs sd body dirpath rest st =
        for_each (\<lambda>(d', l'). body d' l') (walk_list dirpath rest) st"
  proof (rule 2(1))
    show "\<And>d l s s'. body d l s = Inr s' \<Longrightarrow> root s' sd = root s sd" by (rule 2(2))
    show "wf_entries rest" using 2(3) by simp
    show "lookup (root st sd) (dirpath @ [n]) = Some (Dir sub)" if "(n, Dir sub) \<in> set rest" for n sub
      using 2(4) [of n sub] that by simp
  qed
  then show ?case by simp
next
  case (3 sd body dirpath name sub rest st)
  note frame = 3(4)
  have wf_sub: "wf_entries sub" and wf_rest: "wf_entries rest" using 3(5) by simp_all
  have here: "lookup (root st sd) (dirpath @ [name]) = Some (Dir sub)"
    using 3(6) [of name sub] by simp
  then have isd: "isdir st (sd, dirpath @ [name])" by (simp add: isdir_iff)
  show ?case
  proof (cases "body (dirpath @ [name]) sub st")
    case (Inl e)
    with isd show ?thesis by simp
  next
    case (Inr st1)
    have r1: "root st1 sd = root st sd" using frame Inr by blast
    have sub_ok: "lookup (root st1 sd) ((dirpath @ [name]) @ [n]) = Some (Dir s)"
      if "(n, Dir s) \<in> set sub" for n s
    proof -
      have m: "map_of sub n = Some (Dir s)" using wf_sub that by (rule wf_entries_map_of)
      have "lookup (root st1 sd) ((dirpath @ [name]) @ [n]) =
            lookup (lookup (root st sd) (dirpath @ [name])) [n]"
        by (simp only: lookup_append r1)
      also have "\<dots> = lookup (Some (Dir sub)) [n]" by (simp only: here)
      also have "\<dots> = Some (Dir s)" using m by simp
      finally show ?thesis .
    qed
    have IH1: "os_walk_dirs sd body (dirpath @ [name]) sub st1 =
               for_each (\<lambda>(d', l'). body d' l') (walk_list (dirpath @ [name]) sub) st1"
      using 3(1) [OF isd Inr frame wf_sub sub_ok] .
    show ?thesis
    proof (cases "os_walk_dirs sd body (dirpath @ [name]) sub st1")
      case (Inl e)
      have fe: "for_each (\<lambda>(d', l'). body d' l') (walk_list (dirpath @ [name]) sub) st1 = Inl e"
        using IH1 Inl by simp
      show ?thesis using isd \<open>body (dirpath @ [name]) sub st = Inr st1\<close> Inl fe
        by (simp add: for_each_append)
    next
      case (Inr st2)
      have fe: "for_each (\<lambda>(d', l'). body d' l') (walk_list (dirpath @ [name]) sub) st1 = Inr st2"
        using IH1 Inr by simp
      have "root st2 sd = root st1 sd"
        by (rule for_each_rel [where R = "\<lambda>a b. root b sd = root a sd", OF _ _ _ fe])
           (use frame in auto)
      then have r2: "root st2 sd = root st sd" using r1 by simp
      have rest_ok: "lookup (root st2 sd) (dirpath @ [n]) = Some (Dir s)"
        if "(n, Dir s) \<in> set rest" for n s
        using 3(6) [of n s] that r2 by simp
      have IH2: "os_walk_dirs sd body dirpath rest st2 =
                 for_each (\<lambda>(d', l'). body d' l') (walk_list dirpath rest) st2"
        using 3(2) [OF isd \<open>body (dirpath @ [name]) sub st = Inr st1\<close> Inr frame wf_rest rest_ok] .
      show ?thesis
        using isd \<open>body (dirpath @ [name]) sub st = Inr st1\<close> Inr fe IH2
        by (simp add: for_each_append)
    qed
  qed
qed

subsection \<open>The pruning phase\<close>

lemma logging_fields [simp]:
  "source (logging m s) = source s"
  "replica (logging m s) = replica s"
  "source_replica_pairs (logging m s) = source_replica_pairs s"
  "log (logging m s) = log s @ [m]"
  by (simp_all add: logging_def)

lemma exists_iff: "exists st (sd, p) \<longleftrightarrow> lookup (root st sd) p \<noteq> None"
  by (simp add: exists_def node_at_def)

lemma isdir_entry_at: "isdir st (sd, p) \<longleftrightarrow> entry_at (root st sd) p = Some (Dir [])"
  by (auto simp: isdir_iff entry_at_eq_Dir)

lemma prune_file_step:
  assumes "entry_at (replica s) (d @ [n]) = Some (File c m r w)"
  shows "prune_file False d n s =
           Inr (if lookup (source s) (d @ [n]) = None
                then logging (Removed_file (Replica, d @ [n]))
                       (s\<lparr>replica := unlink (replica s) (d @ [n])\<rparr>)
                else s)"
  using assms
  by (simp add: prune_file_def Let_def exists_iff os_remove_def node_at_def entry_at_eq_File)

lemma prune_dir_step:
  assumes "entry_at (replica s) (d @ [n]) = Some (Dir [])"
  shows "prune_dir False d n s =
           Inr (if lookup (source s) (d @ [n]) = None
                then logging (Removed_directory (Replica, d @ [n]))
                       (s\<lparr>replica := unlink (replica s) (d @ [n])\<rparr>)
                else s)"
proof -
  from assms obtain es where "lookup (replica s) (d @ [n]) = Some (Dir es)"
    by (auto simp: entry_at_eq_Dir)
  then show ?thesis
    by (simp add: prune_dir_def Let_def exists_iff rmtree_def node_at_def)
qed

lemma for_each_unlinks:
  assumes step: "\<And>n s. n \<in> set ns \<Longrightarrow> K (entry_at (replica s) (d @ [n])) \<Longrightarrow>
            body n s = Inr (if lookup (source s) (d @ [n]) = None
                            then logging (rec n) (s\<lparr>replica := unlink (replica s) (d @ [n])\<rparr>)
                            else s)"
      and "distinct ns"
      and "\<And>n. n \<in> set ns \<Longrightarrow> K (entry_at (replica st) (d @ [n]))"
  shows "\<exists>st1. for_each body ns st = Inr st1 \<and> source st1 = source st
           \<and> source_replica_pairs st1 = source_replica_pairs st
           \<and> (\<forall>q. entry_at (replica st1) q =
                 (if \<exists>n\<in>set ns. prefix (d @ [n]) q \<and> lookup (source st) (d @ [n]) = None
                  then None else entry_at (replica st) q))
           \<and> (\<exists>L. log st1 = log st @ L
                 \<and> set L \<subseteq> rec ` {n \<in> set ns. lookup (source st) (d @ [n]) = None})"
  using assms
proof (induction ns arbitrary: st)
  case Nil
  show ?case by simp
next
  case (Cons n ns)
  let ?gone = "lookup (source st) (d @ [n]) = None"
  let ?s1 = "if ?gone then logging (rec n) (st\<lparr>replica := unlink (replica st) (d @ [n])\<rparr>) else st"
  have b: "body n st = Inr ?s1"
    using Cons.prems(1) [of n st] Cons.prems(3) [of n] by simp
  have src1: "source ?s1 = source st" by simp
  have e1: "entry_at (replica ?s1) q =
      (if ?gone \<and> prefix (d @ [n]) q then None else entry_at (replica st) q)" for q
    by (simp add: entry_at_unlink)
  have k1: "K (entry_at (replica ?s1) (d @ [n']))" if "n' \<in> set ns" for n'
  proof -
    from that Cons.prems(2) have "n' \<noteq> n" by auto
    then have "\<not> prefix (d @ [n]) (d @ [n'])" by simp
    then have "entry_at (replica ?s1) (d @ [n']) = entry_at (replica st) (d @ [n'])"
      by (simp add: e1)
    then show ?thesis using Cons.prems(3) [of n'] that by simp
  qed
  have "\<exists>st1. for_each body ns ?s1 = Inr st1 \<and> source st1 = source ?s1
           \<and> source_replica_pairs st1 = source_replica_pairs ?s1
           \<and> (\<forall>q. entry_at (replica st1) q =
                 (if \<exists>n\<in>set ns. prefix (d @ [n]) q \<and> lookup (source ?s1) (d @ [n]) = None
                  then None else entry_at (replica ?s1) q))
           \<and> (\<exists>L. log st1 = log ?s1 @ L
                 \<and> set L \<subseteq> rec ` {n \<in> set ns. lookup (source ?s1) (d @ [n]) = None})"
  proof (rule Cons.IH)
    show "body m s = Inr (if lookup (source s) (d @ [m]) = None
              then logging (rec m) (s\<lparr>replica := unlink (replica s) (d @ [m])\<rparr>) else s)"
      if "m \<in> set ns" "K (entry_at (replica s) (d @ [m]))" for m s
      using Cons.prems(1) [of m s] that by simp
    show "distinct ns" using Cons.prems(2) by simp
    show "K (entry_at (replica ?s1) (d @ [m]))" if "m \<in> set ns" for m
      using k1 that .
  qed
  then obtain st1 L where st1: "for_each body ns ?s1 = Inr st1" "source st1 = source ?s1"
    "source_replica_pairs st1 = source_replica_pairs ?s1"
    "\<And>q. entry_at (replica st1) q =
          (if \<exists>n\<in>set ns. prefix (d @ [n]) q \<and> lookup (source ?s1) (d @ [n]) = None
           then None else entry_at (replica ?s1) q)"
    "log st1 = log ?s1 @ L"
    "set L \<subseteq> rec ` {n \<in> set ns. lookup (source ?s1) (d @ [n]) = None}"
    by blast
  have run: "for_each body (n # ns) st = Inr st1" using b st1(1) by simp
  have ent: "entry_at (replica st1) q =
      (if \<exists>m\<in>set (n # ns). prefix (d @ [m]) q \<and> lookup (source st) (d @ [m]) = None
       then None else entry_at (replica st) q)" for q
    unfolding st1(4) [of q] e1 [of q] src1 by auto
  have lg: "\<exists>L'. log st1 = log st @ L'
      \<and> set L' \<subseteq> rec ` {m \<in> set (n # ns). lookup (source st) (d @ [m]) = None}"
  proof (cases ?gone)
    case True
    with st1(5,6) show ?thesis
      by (intro exI [of _ "rec n # L"]) auto
  next
    case False
    with st1(5,6) show ?thesis
      by (intro exI [of _ L]) auto
  qed
  show ?case
    using run st1(2,3) ent lg by (auto simp del: for_each.simps)
qed

lemma files_of_iff: "n \<in> set (files_of l) \<longleftrightarrow> (\<exists>c m r w. (n, File c m r w) \<in> set l)"
proof
  assume "n \<in> set (files_of l)"
  then obtain v where v: "(n, v) \<in> set l" "\<not> is_Dir v" by (auto simp: files_of_def)
  then show "\<exists>c m r w. (n, File c m r w) \<in> set l" by (cases v) auto
next
  assume "\<exists>c m r w. (n, File c m r w) \<in> set l"
  then show "n \<in> set (files_of l)" by (force simp: files_of_def)
qed

lemma dirs_of_iff: "n \<in> set (dirs_of l) \<longleftrightarrow> (\<exists>s. (n, Dir s) \<in> set l)"
proof
  assume "n \<in> set (dirs_of l)"
  then obtain v where v: "(n, v) \<in> set l" "is_Dir v" by (auto simp: dirs_of_def)
  then show "\<exists>s. (n, Dir s) \<in> set l" by (cases v) auto
next
  assume "\<exists>s. (n, Dir s) \<in> set l"
  then show "n \<in> set (dirs_of l)" by (force simp: dirs_of_def)
qed

lemma distinct_files_of: "wf_entries l \<Longrightarrow> distinct (files_of l)"
  by (simp add: files_of_def wf_entries_distinct distinct_map_filter)

lemma distinct_dirs_of: "wf_entries l \<Longrightarrow> distinct (dirs_of l)"
  by (simp add: dirs_of_def wf_entries_distinct distinct_map_filter)

lemma lookup_prefix_None: "lookup r p = None \<Longrightarrow> prefix p q \<Longrightarrow> lookup r q = None"
  by (auto simp: prefix_def lookup_append)

lemma prune_directory_spec:
  assumes wf: "wf_entries l"
      and agr: "\<And>q. entry_at (replica st) (d @ q) = entry_at (Some (Dir l)) q"
  shows "\<exists>st1. prune_directory False d l st = Inr st1 \<and> source st1 = source st
           \<and> source_replica_pairs st1 = source_replica_pairs st
           \<and> (\<forall>q. entry_at (replica st1) q =
                 (if \<exists>n. prefix (d @ [n]) q \<and> lookup (source st) (d @ [n]) = None
                  then None else entry_at (replica st) q))
           \<and> (\<exists>L. log st1 = log st @ L \<and> set L \<subseteq> range Removed_file \<union> range Removed_directory)"
proof -
  have child: "entry_at (replica st) (d @ [n]) = map_option shape (map_of l n)" for n
    using agr [of "[n]"] by (simp add: entry_at_def)
  have kf: "\<exists>c m r w. entry_at (replica st) (d @ [n]) = Some (File c m r w)"
    if "n \<in> set (files_of l)" for n
  proof -
    from that obtain c m r w where "(n, File c m r w) \<in> set l" by (auto simp: files_of_iff)
    with wf have "map_of l n = Some (File c m r w)" by (rule wf_entries_map_of)
    then show ?thesis by (simp add: child)
  qed
  have "\<exists>st1. for_each (prune_file False d) (files_of l) st = Inr st1 \<and> source st1 = source st
           \<and> source_replica_pairs st1 = source_replica_pairs st
           \<and> (\<forall>q. entry_at (replica st1) q =
                 (if \<exists>n\<in>set (files_of l). prefix (d @ [n]) q \<and> lookup (source st) (d @ [n]) = None
                  then None else entry_at (replica st) q))
           \<and> (\<exists>L. log st1 = log st @ L
                 \<and> set L \<subseteq> (\<lambda>n. Removed_file (Replica, d @ [n])) `
                      {n \<in> set (files_of l). lookup (source st) (d @ [n]) = None})"
  proof (rule for_each_unlinks [where K = "\<lambda>e. \<exists>c m r w. e = Some (File c m r w)"])
    show "prune_file False d n s =
        Inr (if lookup (source s) (d @ [n]) = None
             then logging (Removed_file (Replica, d @ [n])) (s\<lparr>replica := unlink (replica s) (d @ [n])\<rparr>)
             else s)"
      if "\<exists>c m r w. entry_at (replica s) (d @ [n]) = Some (File c m r w)" for n s
      using that prune_file_step by blast
    show "distinct (files_of l)" using wf by (rule distinct_files_of)
    show "\<exists>c m r w. entry_at (replica st) (d @ [n]) = Some (File c m r w)"
      if "n \<in> set (files_of l)" for n using kf that .
  qed
  then obtain sf Lf where sf: "for_each (prune_file False d) (files_of l) st = Inr sf"
    "source sf = source st" "source_replica_pairs sf = source_replica_pairs st"
    "\<And>q. entry_at (replica sf) q =
          (if \<exists>n\<in>set (files_of l). prefix (d @ [n]) q \<and> lookup (source st) (d @ [n]) = None
           then None else entry_at (replica st) q)"
    "log sf = log st @ Lf" "set Lf \<subseteq> range Removed_file"
    by blast
  have kd: "entry_at (replica sf) (d @ [n]) = Some (Dir [])" if "n \<in> set (dirs_of l)" for n
  proof -
    from that obtain s where s: "(n, Dir s) \<in> set l" by (auto simp: dirs_of_iff)
    with wf have m: "map_of l n = Some (Dir s)" by (rule wf_entries_map_of)
    have "n \<notin> set (files_of l)"
    proof
      assume "n \<in> set (files_of l)"
      then obtain c m' r w where "(n, File c m' r w) \<in> set l" by (auto simp: files_of_iff)
      with wf have "map_of l n = Some (File c m' r w)" by (rule wf_entries_map_of)
      with m show False by simp
    qed
    then have "entry_at (replica sf) (d @ [n]) = entry_at (replica st) (d @ [n])"
      by (auto simp: sf(4))
    with m show ?thesis by (simp add: child)
  qed
  have "\<exists>st1. for_each (prune_dir False d) (dirs_of l) sf = Inr st1 \<and> source st1 = source sf
           \<and> source_replica_pairs st1 = source_replica_pairs sf
           \<and> (\<forall>q. entry_at (replica st1) q =
                 (if \<exists>n\<in>set (dirs_of l). prefix (d @ [n]) q \<and> lookup (source sf) (d @ [n]) = None
                  then None else entry_at (replica sf) q))
           \<and> (\<exists>L. log st1 = log sf @ L
                 \<and> set L \<subseteq> (\<lambda>n. Removed_directory (Replica, d @ [n])) `
                      {n \<in> set (dirs_of l). lookup (source sf) (d @ [n]) = None})"
  proof (rule for_each_unlinks [where K = "\<lambda>e. e = Some (Dir [])"])
    show "prune_dir False d n s =
        Inr (if lookup (source s) (d @ [n]) = None
             then logging (Removed_directory (Replica, d @ [n])) (s\<lparr>replica := unlink (replica s) (d @ [n])\<rparr>)
             else s)"
      if "entry_at (replica s) (d @ [n]) = Some (Dir [])" for n s
      using that by (rule prune_dir_step)
    show "distinct (dirs_of l)" using wf by (rule distinct_dirs_of)
    show "entry_at (replica sf) (d @ [n]) = Some (Dir [])" if "n \<in> set (dirs_of l)" for n
      using kd that .
  qed
  then obtain sd Ld where sd: "for_each (prune_dir False d) (dirs_of l) sf = Inr sd"
    "source sd = source sf" "source_replica_pairs sd = source_replica_pairs sf"
    "\<And>q. entry_at (replica sd) q =
          (if \<exists>n\<in>set (dirs_of l). prefix (d @ [n]) q \<and> lookup (source sf) (d @ [n]) = None
           then None else entry_at (replica sf) q)"
    "log sd = log sf @ Ld" "set Ld \<subseteq> range Removed_directory"
    by blast
  have run: "prune_directory False d l st = Inr sd"
    by (simp add: prune_directory_def sf(1) sd(1))
  have outside: "entry_at (replica st) q = None"
    if "prefix (d @ [n]) q" "n \<notin> set (files_of l)" "n \<notin> set (dirs_of l)" for n q
  proof -
    from that(1) obtain t where q: "q = d @ (n # t)" by (auto simp: prefix_def)
    have "map_of l n = None"
    proof (cases "map_of l n")
      case None
      then show ?thesis .
    next
      case (Some v)
      then have "(n, v) \<in> set l" by (rule map_of_SomeD)
      with that(2,3) show ?thesis by (cases v) (auto simp: files_of_iff dirs_of_iff)
    qed
    then show ?thesis unfolding q agr by simp
  qed
  have ent: "entry_at (replica sd) q =
      (if \<exists>n. prefix (d @ [n]) q \<and> lookup (source st) (d @ [n]) = None
       then None else entry_at (replica st) q)" for q
  proof -
    let ?Cf = "\<exists>n\<in>set (files_of l). prefix (d @ [n]) q \<and> lookup (source st) (d @ [n]) = None"
    let ?Cd = "\<exists>n\<in>set (dirs_of l). prefix (d @ [n]) q \<and> lookup (source st) (d @ [n]) = None"
    let ?C = "\<exists>n. prefix (d @ [n]) q \<and> lookup (source st) (d @ [n]) = None"
    have f: "entry_at (replica sf) q = (if ?Cf then None else entry_at (replica st) q)"
      by (rule sf(4))
    have dd: "entry_at (replica sd) q = (if ?Cd then None else entry_at (replica sf) q)"
      using sd(4) [of q] by (simp only: sf(2))
    show ?thesis
    proof (cases ?C)
      case False
      then have "\<not> ?Cf" "\<not> ?Cd" by blast+
      with False show ?thesis by (simp only: f dd if_False)
    next
      case True
      then obtain n where n: "prefix (d @ [n]) q" "lookup (source st) (d @ [n]) = None" by blast
      have "entry_at (replica sd) q = None"
      proof (cases "n \<in> set (dirs_of l)")
        case True
        with n have ?Cd by blast
        then show ?thesis by (simp only: dd if_True)
      next
        case nd: False
        show ?thesis
        proof (cases "n \<in> set (files_of l)")
          case True
          with n have ?Cf by blast
          then have "entry_at (replica sf) q = None" by (simp only: f if_True)
          then show ?thesis by (simp add: dd)
        next
          case False
          with nd n(1) have "entry_at (replica st) q = None" by (intro outside [of n q])
          then have "entry_at (replica sf) q = None" by (simp add: f)
          then show ?thesis by (simp add: dd)
        qed
      qed
      with True show ?thesis by (simp only: if_True)
    qed
  qed
  have lg: "log sd = log st @ (Lf @ Ld)" by (simp add: sd(5) sf(5))
  have sub: "set (Lf @ Ld) \<subseteq> range Removed_file \<union> range Removed_directory"
    using sf(6) sd(6) by auto
  show ?thesis
  proof (intro exI [of _ sd] conjI allI)
    show "prune_directory False d l st = Inr sd" by (rule run)
    show "source sd = source st" by (simp add: sd(2) sf(2))
    show "source_replica_pairs sd = source_replica_pairs st" by (simp add: sd(3) sf(3))
    show "entry_at (replica sd) q =
        (if \<exists>n. prefix (d @ [n]) q \<and> lookup (source st) (d @ [n]) = None
         then None else entry_at (replica st) q)" for q by (rule ent)
    show "\<exists>L. log sd = log st @ L \<and> set L \<subseteq> range Removed_file \<union> range Removed_directory"
      using lg sub by blast
  qed
qed

lemma visit_combine:
  fixes r0 r1 r2 src :: "node option"
  assumes agr: "\<And>t. entry_at r0 (d @ t) = entry_at (Some (Dir l)) t"
      and b: "\<And>q. entry_at r1 q =
                (if \<exists>n. prefix (d @ [n]) q \<and> lookup src (d @ [n]) = None then None
                 else entry_at r0 q)"
      and w: "\<And>q. entry_at r2 q =
                (if (\<exists>x s. (x, Dir s) \<in> set l \<and> strict_prefix (d @ [x]) q) \<and> lookup src q = None
                 then None else entry_at r1 q)"
  shows "entry_at r2 q = (if strict_prefix d q \<and> lookup src q = None then None else entry_at r0 q)"
proof (cases "strict_prefix d q")
  case False
  have 1: "\<not> prefix (d @ [n]) q" for n
    using False by (auto simp: prefix_def strict_prefix_def)
  have 2: "\<not> strict_prefix (d @ [n]) q" for n
    using 1 by (auto simp: strict_prefix_def)
  show ?thesis using False by (simp add: w b 1 2)
next
  case True
  then obtain x t where q: "q = d @ (x # t)"
    by (metis append_eq_conv_conj list.exhaust prefix_def self_append_conv strict_prefix_def)
  have pre: "prefix (d @ [n]) q \<longleftrightarrow> n = x" for n
    by (auto simp: q prefix_def)
  have spre: "strict_prefix (d @ [n]) q \<longleftrightarrow> n = x \<and> t \<noteq> []" for n
    by (auto simp: q strict_prefix_def prefix_def)
  show ?thesis
  proof (cases "lookup src q = None")
    case False
    have "lookup src (d @ [x]) \<noteq> None"
    proof
      assume "lookup src (d @ [x]) = None"
      then have "lookup src q = None"
        by (rule lookup_prefix_None) (simp add: pre)
      with False show False by simp
    qed
    then have nb: "\<not> (\<exists>n. prefix (d @ [n]) q \<and> lookup src (d @ [n]) = None)"
      by (auto simp: pre)
    have nw: "\<not> ((\<exists>x s. (x, Dir s) \<in> set l \<and> strict_prefix (d @ [x]) q) \<and> lookup src q = None)"
      using False by blast
    have c: "\<not> (strict_prefix d q \<and> lookup src q = None)" using False by blast
    have "entry_at r2 q = entry_at r1 q" using w [of q] nw by (simp only: if_False)
    also have "\<dots> = entry_at r0 q" using b [of q] nb by (simp only: if_False)
    finally show ?thesis using c by (simp only: if_False)
  next
    case None: True
    show ?thesis
    proof (cases "lookup src (d @ [x]) = None")
      case True
      with None \<open>strict_prefix d q\<close> show ?thesis by (auto simp: w b pre)
    next
      case False
      with None q have t: "t \<noteq> []" by auto
      show ?thesis
      proof (cases "\<exists>s. (x, Dir s) \<in> set l")
        case True
        with None t \<open>strict_prefix d q\<close> show ?thesis by (auto simp: w spre)
      next
        case nd: False
        have "entry_at (map_of l x) t = None"
        proof (cases "map_of l x")
          case None
          then show ?thesis by simp
        next
          case (Some v)
          then have "(x, v) \<in> set l" by (rule map_of_SomeD)
          with nd obtain c m r w' where "v = File c m r w'" by (cases v) auto
          with Some t show ?thesis by (cases t) simp_all
        qed
        then have "entry_at r0 q = None" unfolding q agr by simp
        with None \<open>strict_prefix d q\<close> show ?thesis by (simp add: w b)
      qed
    qed
  qed
qed

lemma child_agrees:
  fixes r0 r1 src :: "node option"
  assumes wf: "wf_entries l"
      and agr: "\<And>t. entry_at r0 (d @ t) = entry_at (Some (Dir l)) t"
      and b: "\<And>q. entry_at r1 q =
                (if \<exists>n. prefix (d @ [n]) q \<and> lookup src (d @ [n]) = None then None
                 else entry_at r0 q)"
      and x: "(x, Dir s) \<in> set l"
      and isd: "entry_at r1 (d @ [x]) = Some (Dir [])"
  shows "entry_at r1 ((d @ [x]) @ t) = entry_at (Some (Dir s)) t"
proof -
  have pre: "prefix (d @ [n]) ((d @ [x]) @ t') \<longleftrightarrow> n = x" for n t'
    by (auto simp: prefix_def)
  have here: "lookup src (d @ [x]) \<noteq> None"
  proof
    assume "lookup src (d @ [x]) = None"
    then have "\<exists>n. prefix (d @ [n]) (d @ [x]) \<and> lookup src (d @ [n]) = None" by auto
    then have "entry_at r1 (d @ [x]) = None" by (simp only: b if_True)
    with isd show False by simp
  qed
  then have "\<not> (\<exists>n. prefix (d @ [n]) ((d @ [x]) @ t) \<and> lookup src (d @ [n]) = None)"
    by (auto simp: pre)
  then have "entry_at r1 ((d @ [x]) @ t) = entry_at r0 ((d @ [x]) @ t)"
    by (simp only: b if_False)
  also have "\<dots> = entry_at (Some (Dir l)) (x # t)" using agr [of "x # t"] by simp
  also have "\<dots> = entry_at (Some (Dir s)) t"
    using wf_entries_map_of [OF wf x] by simp
  finally show ?thesis .
qed

lemma prune_effect_trans:
  assumes "prune_effect A st st1" and "prune_effect B st1 st2"
  shows "prune_effect (\<lambda>q. A q \<or> B q) st st2"
proof -
  from assms obtain L1 L2 where
    1: "source st1 = source st" "source_replica_pairs st1 = source_replica_pairs st"
       "\<And>q. entry_at (replica st1) q =
            (if A q \<and> lookup (source st) q = None then None else entry_at (replica st) q)"
       "log st1 = log st @ L1" "set L1 \<subseteq> range Removed_file \<union> range Removed_directory"
    and 2: "source st2 = source st1" "source_replica_pairs st2 = source_replica_pairs st1"
       "\<And>q. entry_at (replica st2) q =
            (if B q \<and> lookup (source st1) q = None then None else entry_at (replica st1) q)"
       "log st2 = log st1 @ L2" "set L2 \<subseteq> range Removed_file \<union> range Removed_directory"
    unfolding prune_effect_def by blast
  have e: "entry_at (replica st2) q =
      (if (A q \<or> B q) \<and> lookup (source st) q = None then None else entry_at (replica st) q)" for q
    unfolding 2(3) [of q] 1(3) [of q] 1(1) by auto
  have l: "log st2 = log st @ (L1 @ L2)" by (simp add: 1(4) 2(4))
  have s: "set (L1 @ L2) \<subseteq> range Removed_file \<union> range Removed_directory"
    using 1(5) 2(5) by auto
  show ?thesis
    unfolding prune_effect_def
  proof (intro conjI allI)
    show "source st2 = source st" by (simp add: 1(1) 2(1))
    show "source_replica_pairs st2 = source_replica_pairs st" by (simp add: 1(2) 2(2))
    show "entry_at (replica st2) q =
      (if (A q \<or> B q) \<and> lookup (source st) q = None then None else entry_at (replica st) q)" for q
      by (rule e)
    show "\<exists>L. log st2 = log st @ L \<and> set L \<subseteq> range Removed_file \<union> range Removed_directory"
      using l s by blast
  qed
qed

lemma prune_effect_cong:
  assumes "\<And>q. A q \<longleftrightarrow> B q" and "prune_effect A st st'"
  shows "prune_effect B st st'"
proof -
  from assms(1) have "A = B" by auto
  with assms(2) show ?thesis by simp
qed

lemma prune_effect_refl: "prune_effect (\<lambda>q. False) st st"
  by (simp add: prune_effect_def)

lemma prune_visit:
  assumes agr: "\<And>t. entry_at (replica st) (d @ t) = entry_at (Some (Dir l)) t"
      and b1: "source st1 = source st" "source_replica_pairs st1 = source_replica_pairs st"
      and b2: "\<And>q. entry_at (replica st1) q =
                (if \<exists>n. prefix (d @ [n]) q \<and> lookup (source st) (d @ [n]) = None
                 then None else entry_at (replica st) q)"
      and b3: "log st1 = log st @ L1" "set L1 \<subseteq> range Removed_file \<union> range Removed_directory"
      and inner: "prune_effect (\<lambda>q. \<exists>x s. (x, Dir s) \<in> set l \<and> strict_prefix (d @ [x]) q) st1 st2"
  shows "prune_effect (strict_prefix d) st st2"
proof -
  from inner obtain L2 where
    2: "source st2 = source st1" "source_replica_pairs st2 = source_replica_pairs st1"
       "\<And>q. entry_at (replica st2) q =
            (if (\<exists>x s. (x, Dir s) \<in> set l \<and> strict_prefix (d @ [x]) q) \<and> lookup (source st1) q = None
             then None else entry_at (replica st1) q)"
       "log st2 = log st1 @ L2" "set L2 \<subseteq> range Removed_file \<union> range Removed_directory"
    unfolding prune_effect_def by blast
  have w: "entry_at (replica st2) q =
            (if (\<exists>x s. (x, Dir s) \<in> set l \<and> strict_prefix (d @ [x]) q) \<and> lookup (source st) q = None
             then None else entry_at (replica st1) q)" for q
    using 2(3) [of q] by (simp only: b1(1))
  have e: "entry_at (replica st2) q =
      (if strict_prefix d q \<and> lookup (source st) q = None then None else entry_at (replica st) q)" for q
    using agr b2 w by (rule visit_combine)
  have l: "log st2 = log st @ (L1 @ L2)" by (simp add: 2(4) b3(1))
  have s: "set (L1 @ L2) \<subseteq> range Removed_file \<union> range Removed_directory"
    using b3(2) 2(5) by auto
  show ?thesis
    unfolding prune_effect_def
  proof (intro conjI allI)
    show "source st2 = source st" by (simp add: b1(1) 2(1))
    show "source_replica_pairs st2 = source_replica_pairs st" by (simp add: b1(2) 2(2))
    show "entry_at (replica st2) q =
      (if strict_prefix d q \<and> lookup (source st) q = None then None else entry_at (replica st) q)" for q
      by (rule e)
    show "\<exists>L. log st2 = log st @ L \<and> set L \<subseteq> range Removed_file \<union> range Removed_directory"
      using l s by blast
  qed
qed

lemma prune_walk_spec:
  assumes "sd = Replica" and "body = prune_directory False"
      and "wf_entries es"
      and "\<And>n sub t. (n, Dir sub) \<in> set es \<Longrightarrow> isdir st (Replica, d @ [n]) \<Longrightarrow>
             entry_at (replica st) ((d @ [n]) @ t) = entry_at (Some (Dir sub)) t"
  shows "\<exists>st'. os_walk_dirs sd body d es st = Inr st'
           \<and> prune_effect (\<lambda>q. \<exists>n sub. (n, Dir sub) \<in> set es \<and> strict_prefix (d @ [n]) q) st st'"
  using assms
proof (induction sd body d es st rule: os_walk_dirs.induct)
  case (1 sd body dirpath st)
  show ?case by (simp add: prune_effect_refl)
next
  case (2 sd body dirpath name c m r w rest st)
  have "\<exists>st'. os_walk_dirs sd body dirpath rest st = Inr st'
           \<and> prune_effect (\<lambda>q. \<exists>n sub. (n, Dir sub) \<in> set rest \<and> strict_prefix (dirpath @ [n]) q) st st'"
  proof (rule 2(1) [OF 2(2) 2(3)])
    show "wf_entries rest" using 2(4) by simp
    show "entry_at (replica st) ((dirpath @ [n]) @ t) = entry_at (Some (Dir sub)) t"
      if "(n, Dir sub) \<in> set rest" "isdir st (Replica, dirpath @ [n])" for n sub t
      using 2(5) [of n sub t] that by simp
  qed
  then obtain st' where st': "os_walk_dirs sd body dirpath rest st = Inr st'"
    "prune_effect (\<lambda>q. \<exists>n sub. (n, Dir sub) \<in> set rest \<and> strict_prefix (dirpath @ [n]) q) st st'"
    by blast
  have "prune_effect (\<lambda>q. \<exists>n sub. (n, Dir sub) \<in> set ((name, File c m r w) # rest)
            \<and> strict_prefix (dirpath @ [n]) q) st st'"
    by (rule prune_effect_cong [OF _ st'(2)]) auto
  with st'(1) show ?case by simp
next
  case (3 sd body dirpath name sub rest st)
  note sd = 3(4) and body = 3(5)
  have wf_sub: "wf_entries sub" and wf_rest: "wf_entries rest"
    and fresh: "name \<notin> fst ` set rest" using 3(6) by simp_all
  let ?here = "dirpath @ [name]"
  show ?case
  proof (cases "isdir st (Replica, ?here)")
    case False
    have isd: "\<not> isdir st (sd, ?here)" using False sd by simp
    have "\<exists>st'. os_walk_dirs sd body dirpath rest st = Inr st'
           \<and> prune_effect (\<lambda>q. \<exists>n s. (n, Dir s) \<in> set rest \<and> strict_prefix (dirpath @ [n]) q) st st'"
    proof (rule 3(3) [OF isd sd body wf_rest])
      show "entry_at (replica st) ((dirpath @ [n]) @ t) = entry_at (Some (Dir s)) t"
        if "(n, Dir s) \<in> set rest" "isdir st (Replica, dirpath @ [n])" for n s t
        using 3(7) [of n s t] that by simp
    qed
    then obtain st' where st': "os_walk_dirs sd body dirpath rest st = Inr st'"
      "prune_effect (\<lambda>q. \<exists>n s. (n, Dir s) \<in> set rest \<and> strict_prefix (dirpath @ [n]) q) st st'"
      by blast
    have gone: "entry_at (replica st) q = None" if "strict_prefix ?here q" for q
    proof -
      from that obtain x t where q: "q = ?here @ (x # t)"
        by (metis append_eq_conv_conj list.exhaust prefix_def self_append_conv strict_prefix_def)
      have nd: "\<not> (\<exists>es. lookup (replica st) ?here = Some (Dir es))"
        using False by (simp add: isdir_iff)
      have "lookup (replica st) q = lookup (lookup (replica st) ?here) (x # t)"
        unfolding q by (rule lookup_append)
      also have "\<dots> = None"
      proof (cases "lookup (replica st) ?here")
        case None
        then show ?thesis by simp
      next
        case (Some v)
        with nd show ?thesis by (cases v) simp_all
      qed
      finally show ?thesis by (simp add: entry_at_def)
    qed
    obtain L where eff:
      "source st' = source st" "source_replica_pairs st' = source_replica_pairs st"
      "\<And>q. entry_at (replica st') q =
            (if (\<exists>n s. (n, Dir s) \<in> set rest \<and> strict_prefix (dirpath @ [n]) q) \<and>
                lookup (source st) q = None
             then None else entry_at (replica st) q)"
      "log st' = log st @ L" "set L \<subseteq> range Removed_file \<union> range Removed_directory"
      using st'(2) unfolding prune_effect_def by blast
    have e: "entry_at (replica st') q =
            (if (\<exists>n s. (n, Dir s) \<in> set ((name, Dir sub) # rest) \<and> strict_prefix (dirpath @ [n]) q) \<and>
                lookup (source st) q = None
             then None else entry_at (replica st) q)" for q
    proof (cases "strict_prefix ?here q")
      case True
      from gone [OF True] have "entry_at (replica st') q = None" by (simp add: eff(3))
      with True gone [OF True] show ?thesis by auto
    next
      case False
      then have "(\<exists>n s. (n, Dir s) \<in> set ((name, Dir sub) # rest) \<and> strict_prefix (dirpath @ [n]) q)
          \<longleftrightarrow> (\<exists>n s. (n, Dir s) \<in> set rest \<and> strict_prefix (dirpath @ [n]) q)" by auto
      then show ?thesis by (simp only: eff(3))
    qed
    have "prune_effect (\<lambda>q. \<exists>n s. (n, Dir s) \<in> set ((name, Dir sub) # rest)
            \<and> strict_prefix (dirpath @ [n]) q) st st'"
      unfolding prune_effect_def
    proof (intro conjI allI)
      show "entry_at (replica st') q =
            (if (\<exists>n s. (n, Dir s) \<in> set ((name, Dir sub) # rest) \<and> strict_prefix (dirpath @ [n]) q) \<and>
                lookup (source st) q = None
             then None else entry_at (replica st) q)" for q by (rule e)
      show "\<exists>L. log st' = log st @ L \<and> set L \<subseteq> range Removed_file \<union> range Removed_directory"
        using eff(4,5) by blast
    qed (rule eff(1), rule eff(2))
    with st'(1) isd show ?thesis by simp
  next
    case True
    have isd: "isdir st (sd, ?here)" using True sd by simp
    have agr: "entry_at (replica st) (?here @ t) = entry_at (Some (Dir sub)) t" for t
      using 3(7) [of name sub t] True by simp
    from prune_directory_spec [OF wf_sub agr]
    obtain st1 L1 where st1: "prune_directory False ?here sub st = Inr st1"
      "source st1 = source st" "source_replica_pairs st1 = source_replica_pairs st"
      "\<And>q. entry_at (replica st1) q =
          (if \<exists>n. prefix (?here @ [n]) q \<and> lookup (source st) (?here @ [n]) = None
           then None else entry_at (replica st) q)"
      "log st1 = log st @ L1" "set L1 \<subseteq> range Removed_file \<union> range Removed_directory"
      by blast
    have b: "body ?here sub st = Inr st1" using st1(1) body by simp
    have "\<exists>st'. os_walk_dirs sd body ?here sub st1 = Inr st'
           \<and> prune_effect (\<lambda>q. \<exists>n s. (n, Dir s) \<in> set sub \<and> strict_prefix (?here @ [n]) q) st1 st'"
    proof (rule 3(1) [OF isd b sd body wf_sub])
      show "entry_at (replica st1) ((?here @ [n]) @ t) = entry_at (Some (Dir s)) t"
        if "(n, Dir s) \<in> set sub" "isdir st1 (Replica, ?here @ [n])" for n s t
      proof (rule child_agrees [OF wf_sub agr st1(4) that(1)])
        show "entry_at (replica st1) (?here @ [n]) = Some (Dir [])"
          using that(2) by (simp add: isdir_entry_at)
      qed
    qed
    then obtain st2 where st2: "os_walk_dirs sd body ?here sub st1 = Inr st2"
      "prune_effect (\<lambda>q. \<exists>n s. (n, Dir s) \<in> set sub \<and> strict_prefix (?here @ [n]) q) st1 st2"
      by blast
    have v: "prune_effect (strict_prefix ?here) st st2"
      using agr st1(2,3,4,5,6) st2(2) by (rule prune_visit)
    then have v_ent: "entry_at (replica st2) q =
        (if strict_prefix ?here q \<and> lookup (source st) q = None then None
         else entry_at (replica st) q)" for q
      unfolding prune_effect_def by blast
    have "\<exists>st'. os_walk_dirs sd body dirpath rest st2 = Inr st'
           \<and> prune_effect (\<lambda>q. \<exists>n s. (n, Dir s) \<in> set rest \<and> strict_prefix (dirpath @ [n]) q) st2 st'"
    proof (rule 3(2) [OF isd b st2(1) sd body wf_rest])
      fix n s t
      assume n: "(n, Dir s) \<in> set rest" and d2: "isdir st2 (Replica, dirpath @ [n])"
      from n fresh have ne: "n \<noteq> name" by force
      then have np: "\<not> strict_prefix ?here ((dirpath @ [n]) @ t')" for t'
        by (auto simp: strict_prefix_def prefix_def)
      have same: "entry_at (replica st2) ((dirpath @ [n]) @ t') = entry_at (replica st) ((dirpath @ [n]) @ t')"
        for t' using np [of t'] by (simp only: v_ent) simp
      have "isdir st (Replica, dirpath @ [n])"
        using d2 same [of "[]"] by (simp add: isdir_entry_at)
      then show "entry_at (replica st2) ((dirpath @ [n]) @ t) = entry_at (Some (Dir s)) t"
        using 3(7) [of n s t] n same [of t] by simp
    qed
    then obtain st3 where st3: "os_walk_dirs sd body dirpath rest st2 = Inr st3"
      "prune_effect (\<lambda>q. \<exists>n s. (n, Dir s) \<in> set rest \<and> strict_prefix (dirpath @ [n]) q) st2 st3"
      by blast
    have "prune_effect (\<lambda>q. strict_prefix ?here q \<or>
            (\<exists>n s. (n, Dir s) \<in> set rest \<and> strict_prefix (dirpath @ [n]) q)) st st3"
      using v st3(2) by (rule prune_effect_trans)
    then have "prune_effect (\<lambda>q. \<exists>n s. (n, Dir s) \<in> set ((name, Dir sub) # rest)
            \<and> strict_prefix (dirpath @ [n]) q) st st3"
      by (rule prune_effect_cong [rotated]) auto
    moreover have "os_walk_dirs sd body dirpath ((name, Dir sub) # rest) st = Inr st3"
      using isd b st2(1) st3(1) by simp
    ultimately show ?thesis by blast
  qed
qed

text \<open>
  The pruning phase of a real pass: it never raises, and it removes from the replica
  exactly the entries below the root that have nothing at their path in the source.
\<close>

lemma prune_spec:
  assumes "wf (replica st)"
  shows "\<exists>st'. prune False st = Inr st' \<and> prune_effect (\<lambda>q. q \<noteq> []) st st'"
proof (cases "replica st")
  case None
  then have "prune_effect (\<lambda>q. q \<noteq> []) st st" by (simp add: prune_effect_def)
  with None show ?thesis by (simp add: prune_def os_walk_def)
next
  case (Some a)
  show ?thesis
  proof (cases a)
    case (File c m r w)
    have "entry_at (replica st) q = None" if "q \<noteq> []" for q
      using that Some File by (cases q) simp_all
    then have "prune_effect (\<lambda>q. q \<noteq> []) st st" by (auto simp: prune_effect_def)
    with Some File show ?thesis by (simp add: prune_def os_walk_def)
  next
    case (Dir es)
    with Some assms have wf: "wf_entries es" by simp
    have agr: "entry_at (replica st) ([] @ t) = entry_at (Some (Dir es)) t" for t
      using Some Dir by simp
    from prune_directory_spec [OF wf agr]
    obtain st1 L1 where st1: "prune_directory False [] es st = Inr st1"
      "source st1 = source st" "source_replica_pairs st1 = source_replica_pairs st"
      "\<And>q. entry_at (replica st1) q =
          (if \<exists>n. prefix ([] @ [n]) q \<and> lookup (source st) ([] @ [n]) = None
           then None else entry_at (replica st) q)"
      "log st1 = log st @ L1" "set L1 \<subseteq> range Removed_file \<union> range Removed_directory"
      by blast
    have "\<exists>st'. os_walk_dirs Replica (prune_directory False) [] es st1 = Inr st'
           \<and> prune_effect (\<lambda>q. \<exists>n s. (n, Dir s) \<in> set es \<and> strict_prefix ([] @ [n]) q) st1 st'"
    proof (rule prune_walk_spec [OF refl refl wf])
      show "entry_at (replica st1) (([] @ [n]) @ t) = entry_at (Some (Dir s)) t"
        if "(n, Dir s) \<in> set es" "isdir st1 (Replica, [] @ [n])" for n s t
      proof (rule child_agrees [OF wf agr st1(4) that(1)])
        show "entry_at (replica st1) ([] @ [n]) = Some (Dir [])"
          using that(2) by (simp add: isdir_entry_at)
      qed
    qed
    then obtain st2 where st2: "os_walk_dirs Replica (prune_directory False) [] es st1 = Inr st2"
      "prune_effect (\<lambda>q. \<exists>n s. (n, Dir s) \<in> set es \<and> strict_prefix ([] @ [n]) q) st1 st2"
      by blast
    have "prune_effect (strict_prefix []) st st2"
      using agr st1(2,3,4,5,6) st2(2) by (rule prune_visit)
    then have "prune_effect (\<lambda>q. q \<noteq> []) st st2"
      by (rule prune_effect_cong [rotated]) (auto simp: strict_prefix_def)
    moreover have "prune False st = Inr st2"
      using Some Dir st1(1) st2(1) by (simp add: prune_def os_walk_def)
    ultimately show ?thesis by blast
  qed
qed

subsection \<open>The scan and the copies, step by step\<close>

lemma os_walk_dirs_rel:
  assumes refl: "\<And>s. R s s"
      and trans: "\<And>a b c. R a b \<Longrightarrow> R b c \<Longrightarrow> R a c"
      and body: "\<And>d l s s'. body d l s = Inr s' \<Longrightarrow> R s s'"
      and run: "os_walk_dirs sd body d es st = Inr st'"
  shows "R st st'"
  using body run
proof (induction sd body d es st arbitrary: st' rule: os_walk_dirs.induct)
  case (1 sd body dirpath st)
  then show ?case using refl by simp
next
  case (2 sd body dirpath name c m r w rest st)
  then show ?case by simp
next
  case (3 sd body dirpath name sub rest st)
  show ?case
  proof (cases "isdir st (sd, dirpath @ [name])")
    case False
    with 3(3) [OF False 3(4)] 3(5) show ?thesis by simp
  next
    case True
    with 3(5) obtain st1 st2 where s: "body (dirpath @ [name]) sub st = Inr st1"
      "os_walk_dirs sd body (dirpath @ [name]) sub st1 = Inr st2"
      "os_walk_dirs sd body dirpath rest st2 = Inr st'"
      by (auto split: sum.splits)
    have "R st st1" using 3(4) s(1) by blast
    moreover have "R st1 st2" using 3(1) [OF True s(1) 3(4) s(2)] .
    moreover have "R st2 st'" using 3(2) [OF True s(1) s(2) 3(4) s(3)] .
    ultimately show ?thesis using trans by blast
  qed
qed

lemma os_walk_rel:
  assumes refl: "\<And>s. R s s"
      and trans: "\<And>a b c. R a b \<Longrightarrow> R b c \<Longrightarrow> R a c"
      and body: "\<And>d l s s'. body d l s = Inr s' \<Longrightarrow> R s s'"
      and run: "os_walk sd body st = Inr st'"
  shows "R st st'"
proof (cases "root st sd")
  case None
  with run refl show ?thesis by (simp add: os_walk_def)
next
  case (Some a)
  show ?thesis
  proof (cases a)
    case File
    with Some run refl show ?thesis by (simp add: os_walk_def)
  next
    case (Dir es)
    with Some run obtain st1 where s: "body [] es st = Inr st1"
      "os_walk_dirs sd body [] es st1 = Inr st'"
      by (auto simp: os_walk_def split: sum.splits)
    have "R st st1" using body s(1) by blast
    moreover have "R st1 st'" using refl trans body s(2) by (rule os_walk_dirs_rel)
    ultimately show ?thesis using trans by blast
  qed
qed

lemma scan_step_refl: "scan_step ev dry pats st st"
  by (simp add: scan_step_def)

lemma scan_step_trans:
  assumes "scan_step ev dry pats a b" and "scan_step ev dry pats b c"
  shows "scan_step ev dry pats a c"
proof -
  from assms(1) obtain P1 L1 where 1: "source b = source a" "wf (replica a) \<longrightarrow> wf (replica b)"
    "dry \<longrightarrow> replica b = replica a"
    "\<And>q. entry_at (replica b) q = entry_at (replica a) q \<or>
          (entry_at (replica a) q = None \<and> entry_at (replica b) q = Some (Dir []))"
    "source_replica_pairs b = source_replica_pairs a @ P1" "\<forall>pair\<in>set P1. pending_pair ev pats pair"
    "log b = log a @ L1" "\<forall>m\<in>set L1. scan_record m"
    unfolding scan_step_def by blast
  from assms(2) obtain P2 L2 where 2: "source c = source b" "wf (replica b) \<longrightarrow> wf (replica c)"
    "dry \<longrightarrow> replica c = replica b"
    "\<And>q. entry_at (replica c) q = entry_at (replica b) q \<or>
          (entry_at (replica b) q = None \<and> entry_at (replica c) q = Some (Dir []))"
    "source_replica_pairs c = source_replica_pairs b @ P2" "\<forall>pair\<in>set P2. pending_pair ev pats pair"
    "log c = log b @ L2" "\<forall>m\<in>set L2. scan_record m"
    unfolding scan_step_def by blast
  show ?thesis
    unfolding scan_step_def
  proof (intro conjI allI)
    show "source c = source a" by (simp add: 1(1) 2(1))
    show "wf (replica a) \<longrightarrow> wf (replica c)" using 1(2) 2(2) by blast
    show "dry \<longrightarrow> replica c = replica a" using 1(3) 2(3) by simp
    show "entry_at (replica c) q = entry_at (replica a) q \<or>
          (entry_at (replica a) q = None \<and> entry_at (replica c) q = Some (Dir []))" for q
      using 1(4) [of q] 2(4) [of q] by auto
    show "\<exists>P. source_replica_pairs c = source_replica_pairs a @ P \<and>
          (\<forall>pair\<in>set P. pending_pair ev pats pair)"
      using 1(5,6) 2(5,6) by (intro exI [of _ "P1 @ P2"]) auto
    show "\<exists>L. log c = log a @ L \<and> (\<forall>m\<in>set L. scan_record m)"
      using 1(7,8) 2(7,8) by (intro exI [of _ "L1 @ L2"]) auto
  qed
qed

lemma files_are_different_effect:
  assumes "files_are_different ev s a b = Inr (d, s')"
  shows "\<exists>L. s' = s\<lparr>log := log s @ L\<rparr> \<and> (\<forall>m\<in>set L. \<exists>P e. m = Error_hashing_file P e)"
proof -
  have 0: "s = s\<lparr>log := log s @ []\<rparr>" by simp
  have h: "\<exists>L. snd (hash_file ev x P) = x\<lparr>log := log x @ L\<rparr>
             \<and> (\<forall>m\<in>set L. \<exists>P e. m = Error_hashing_file P e)" for x P
  proof (cases "open_rb x P")
    case (Inl e)
    then show ?thesis
      by (intro exI [of _ "[Error_hashing_file P e]"]) (simp add: hash_file_eq logging_def)
  next
    case (Inr f)
    then show ?thesis by (intro exI [of _ "[]"]) (simp add: hash_file_eq)
  qed
  from assms consider "s' = s" | "s' = snd (hash_file ev (snd (hash_file ev s a)) b)"
    by (auto simp: files_are_different_def Let_def split: sum.splits if_splits prod.splits)
  then show ?thesis
  proof cases
    case 1
    with 0 show ?thesis by (intro exI [of _ "[]"]) simp
  next
    case 2
    from h [of s a] obtain L1 where L1: "snd (hash_file ev s a) = s\<lparr>log := log s @ L1\<rparr>"
      "\<forall>m\<in>set L1. \<exists>P e. m = Error_hashing_file P e" by blast
    from h [of "snd (hash_file ev s a)" b] obtain L2 where
      L2: "snd (hash_file ev (snd (hash_file ev s a)) b) =
             (snd (hash_file ev s a))\<lparr>log := log (snd (hash_file ev s a)) @ L2\<rparr>"
      "\<forall>m\<in>set L2. \<exists>P e. m = Error_hashing_file P e" by blast
    have "s' = s\<lparr>log := log s @ (L1 @ L2)\<rparr>" using 2 L1(1) L2(1) by simp
    moreover have "\<forall>m\<in>set (L1 @ L2). \<exists>P e. m = Error_hashing_file P e" using L1(2) L2(2) by auto
    ultimately show ?thesis by blast
  qed
qed

lemma scan_stepI:
  fixes s s' :: state
  assumes "s' = s\<lparr>source_replica_pairs := source_replica_pairs s @ P, log := log s @ L\<rparr>"
      and "\<forall>pair\<in>set P. pending_pair ev pats pair"
      and "\<forall>m\<in>set L. scan_record m"
  shows "scan_step ev dry pats s s'"
  unfolding scan_step_def
proof (intro conjI allI)
  show "\<exists>P. source_replica_pairs s' = source_replica_pairs s @ P \<and>
          (\<forall>pair\<in>set P. pending_pair ev pats pair)"
    using assms(1,2) by (intro exI [of _ P]) simp
  show "\<exists>L. log s' = log s @ L \<and> (\<forall>m\<in>set L. scan_record m)"
    using assms(1,3) by (intro exI [of _ L]) simp
qed (simp_all add: assms(1))

lemma scan_file_step:
  assumes "scan_file ev pats d n s = Inr s'"
  shows "scan_step ev dry pats s s'"
proof (cases "should_exclude ev n pats")
  case True
  with assms have "s' = s\<lparr>source_replica_pairs := source_replica_pairs s @ [],
                         log := log s @ [Excluding_file n]\<rparr>"
    by (simp add: scan_file_def logging_def)
  then show ?thesis by (rule scan_stepI) simp_all
next
  case False
  let ?pair = "((Source, d @ [n]), (Replica, d @ [n]))"
  have pend: "pending_pair ev pats ?pair"
    using False by (simp add: pending_pair_def)
  show ?thesis
  proof (cases "exists s (Replica, d @ [n])")
    case nex: False
    have "scan_file ev pats d n s =
            Inr (s\<lparr>source_replica_pairs := source_replica_pairs s @ [?pair]\<rparr>)"
      using False nex by (simp add: scan_file_def Let_def)
    with assms have eq: "s' = s\<lparr>source_replica_pairs := source_replica_pairs s @ [?pair]\<rparr>"
      by simp
    show ?thesis unfolding eq
      by (rule scan_stepI [where P = "[?pair]" and L = "[]"]) (simp_all add: pend)
  next
    case True
    with assms False obtain b s1 where
      fad: "files_are_different ev s (Source, d @ [n]) (Replica, d @ [n]) = Inr (b, s1)"
      and s': "s' = (if b then s1\<lparr>source_replica_pairs := source_replica_pairs s1 @ [?pair]\<rparr> else s1)"
      by (auto simp: scan_file_def Let_def split: sum.splits)
    from files_are_different_effect [OF fad] obtain L where
      L: "s1 = s\<lparr>log := log s @ L\<rparr>" "\<forall>m\<in>set L. \<exists>P e. m = Error_hashing_file P e" by blast
    have rec: "\<forall>m\<in>set L. scan_record m" using L(2) by auto
    show ?thesis
    proof (cases b)
      case True
      with s' L(1) have "s' = s\<lparr>source_replica_pairs := source_replica_pairs s @ [?pair],
                         log := log s @ L\<rparr>" by simp
      then show ?thesis by (rule scan_stepI) (simp_all add: pend rec)
    next
      case False
      with s' L(1) have "s' = s\<lparr>source_replica_pairs := source_replica_pairs s @ [],
                         log := log s @ L\<rparr>" by simp
      then show ?thesis by (rule scan_stepI) (simp_all add: rec)
    qed
  qed
qed

lemma makedirs_replica:
  assumes "makedirs s (Replica, d) = Inr s1"
  shows "\<exists>n. mkdirs (replica s) d = Inr n \<and> s1 = s\<lparr>replica := Some n\<rparr>"
  using assms by (auto simp: makedirs_def split: sum.splits)

lemma makedirs_step:
  assumes "makedirs s (Replica, d) = Inr s1"
  shows "scan_step ev False pats s (logging (Created_directory (Replica, d)) s1)"
proof -
  from makedirs_replica [OF assms] obtain n where
    n: "mkdirs (replica s) d = Inr n" "s1 = s\<lparr>replica := Some n\<rparr>" by blast
  have e: "entry_at (Some n) q = entry_at (replica s) q \<or>
          (entry_at (replica s) q = None \<and> entry_at (Some n) q = Some (Dir []))" for q
  proof (cases "prefix q d")
    case False
    then show ?thesis by (simp add: entry_at_mkdirs [OF n(1)])
  next
    case True
    have new: "entry_at (Some n) q = Some (Dir [])" using True by (simp add: entry_at_mkdirs [OF n(1)])
    show ?thesis
    proof (cases "lookup (replica s) q")
      case None
      with new show ?thesis by (simp add: entry_at_def)
    next
      case (Some v)
      show ?thesis
      proof (cases v)
        case (File c m r w)
        with Some mkdirs_prefix [OF n(1) True, of c m r w] show ?thesis by simp
      next
        case (Dir es)
        with Some new show ?thesis by (simp add: entry_at_def)
      qed
    qed
  qed
  show ?thesis
    unfolding scan_step_def
  proof (intro conjI allI)
    show "wf (replica s) \<longrightarrow> wf (replica (logging (Created_directory (Replica, d)) s1))"
      using n wf_mkdirs [of "replica s" d n] by simp
    show "entry_at (replica (logging (Created_directory (Replica, d)) s1)) q = entry_at (replica s) q \<or>
          (entry_at (replica s) q = None \<and>
           entry_at (replica (logging (Created_directory (Replica, d)) s1)) q = Some (Dir []))" for q
      using e [of q] n(2) by simp
    show "\<exists>P. source_replica_pairs (logging (Created_directory (Replica, d)) s1) =
            source_replica_pairs s @ P \<and> (\<forall>pair\<in>set P. pending_pair ev pats pair)"
      using n(2) by (intro exI [of _ "[]"]) simp
    show "\<exists>L. log (logging (Created_directory (Replica, d)) s1) = log s @ L \<and> (\<forall>m\<in>set L. scan_record m)"
      using n(2) by (intro exI [of _ "[Created_directory (Replica, d)]"]) simp
  qed (simp_all add: n(2))
qed

lemma scan_directory_step:
  assumes "scan_directory ev dry pats d l s = Inr s'"
  shows "scan_step ev dry pats s s'"
proof -
  let ?pre = "if \<not> exists s (Replica, d) \<and> \<not> dry then
              (case makedirs s (Replica, d) of
                 Inl e \<Rightarrow> Inl e
               | Inr st1 \<Rightarrow> Inr (logging (Created_directory (Replica, d)) st1))
            else Inr s"
  from assms obtain s1 where s1: "?pre = Inr s1"
    and loop: "for_each (scan_file ev pats d) (files_of l) s1 = Inr s'"
    by (auto simp: scan_directory_def Let_def split: sum.splits)
  have a: "scan_step ev dry pats s s1"
  proof (cases "\<not> exists s (Replica, d) \<and> \<not> dry")
    case True
    with s1 obtain s0 where "makedirs s (Replica, d) = Inr s0"
      "s1 = logging (Created_directory (Replica, d)) s0" by (auto split: sum.splits)
    with makedirs_step [of s d s0 ev pats] True show ?thesis by simp
  next
    case False
    with s1 have "s1 = s" by auto
    then show ?thesis by (simp add: scan_step_refl)
  qed
  have b: "scan_step ev dry pats s1 s'"
  proof (rule for_each_rel [where R = "scan_step ev dry pats", OF _ _ _ loop])
    show "scan_step ev dry pats x x" for x by (rule scan_step_refl)
    show "scan_step ev dry pats x z" if "scan_step ev dry pats x y" "scan_step ev dry pats y z"
      for x y z using that by (rule scan_step_trans)
    show "scan_step ev dry pats x y" if "scan_file ev pats d n x = Inr y" for n x y
      using that by (rule scan_file_step)
  qed
  from a b show ?thesis by (rule scan_step_trans)
qed

lemma scan_scan_step:
  assumes "scan ev dry pats s = Inr s'"
  shows "scan_step ev dry pats (s\<lparr>source_replica_pairs := []\<rparr>) s'"
proof (rule os_walk_rel [where R = "scan_step ev dry pats"])
  show "scan_step ev dry pats x x" for x by (rule scan_step_refl)
  show "scan_step ev dry pats x z" if "scan_step ev dry pats x y" "scan_step ev dry pats y z"
    for x y z using that by (rule scan_step_trans)
  show "scan_step ev dry pats x y" if "scan_directory ev dry pats d l x = Inr y" for d l x y
    using that by (rule scan_directory_step)
  show "os_walk Source (scan_directory ev dry pats) (s\<lparr>source_replica_pairs := []\<rparr>) = Inr s'"
    using assms by (simp add: scan_def)
qed

subsection \<open>The copies change single entries\<close>

lemma lookup_parent_Dir:
  assumes "lookup r p = Some v" and "p \<noteq> []"
  shows "\<exists>es. lookup r (butlast p) = Some (Dir es)"
proof -
  from assms(2) have p: "p = butlast p @ [last p]" by simp
  have "lookup (lookup r (butlast p)) [last p] = Some v"
    using assms(1) by (subst (asm) p) (simp only: lookup_append)
  then show ?thesis
  proof (cases "lookup r (butlast p)")
    case None
    assume "lookup (lookup r (butlast p)) [last p] = Some v"
    with None show ?thesis by simp
  next
    case (Some a)
    assume "lookup (lookup r (butlast p)) [last p] = Some v"
    with Some show ?thesis by (cases a) simp_all
  qed
qed

lemma lookup_below_nondir:
  assumes "\<not> (\<exists>es. lookup r p = Some (Dir es))" and "strict_prefix p q"
  shows "lookup r q = None"
proof -
  from assms(2) obtain x t where q: "q = p @ (x # t)"
    by (metis append_eq_conv_conj list.exhaust prefix_def self_append_conv strict_prefix_def)
  have "lookup r q = lookup (lookup r p) (x # t)" unfolding q by (rule lookup_append)
  also have "\<dots> = None"
  proof (cases "lookup r p")
    case None
    then show ?thesis by simp
  next
    case (Some v)
    with assms(1) show ?thesis by (cases v) simp_all
  qed
  finally show ?thesis .
qed

lemma put_file_entry:
  assumes par: "lookup r (butlast dst) = Some (Dir es0)" and ne: "dst \<noteq> []"
      and nd: "\<not> (\<exists>es. lookup r dst = Some (Dir es))"
  shows "entry_at (put r dst (File c m rd w)) q =
           (if q = dst then Some (File c m rd w) else entry_at r q)"
proof (cases "q = dst")
  case True
  then show ?thesis by (simp add: entry_at_put_file [OF par ne])
next
  case False
  show ?thesis
  proof (cases "prefix dst q")
    case True
    with False have "strict_prefix dst q" by (simp add: strict_prefix_def)
    with nd have "lookup r q = None" by (rule lookup_below_nondir)
    then have "entry_at r q = None" by (simp add: entry_at_def)
    with True False show ?thesis by (simp add: entry_at_put_file [OF par ne])
  next
    case np: False
    with False show ?thesis by (simp add: entry_at_put_file [OF par ne])
  qed
qed

lemma copy2_replica:
  assumes "copy2 s (Source, p) (Replica, p) = Inr s1" and "p \<noteq> []"
  shows "\<exists>c m r w dst. lookup (source s) p = Some (File c m r w)
           \<and> (dst = p \<or> dst = p @ [last p])
           \<and> entry_at (replica s) dst \<noteq> Some (Dir [])
           \<and> s1 = s\<lparr>replica := put (replica s) dst (File c m r w)\<rparr>
           \<and> (\<forall>q. entry_at (replica s1) q =
                 (if q = dst then Some (File c m r w) else entry_at (replica s) q))"
proof -
  let ?dst = "if isdir s (Replica, p) then p @ [last p] else p"
  have dne: "?dst \<noteq> []" using assms(2) by simp
  from assms(1) obtain c m r w where src: "lookup (source s) p = Some (File c m r w)"
    by (auto simp: copy2_def Let_def node_at_def split: option.splits node.splits if_splits)
  from assms(1) src have s1: "s1 = s\<lparr>replica := put (replica s) ?dst (File c m r w)\<rparr>"
    by (auto simp: copy2_def Let_def node_at_def split: option.splits node.splits if_splits)
  from assms(1) src have nd: "\<not> (\<exists>es. lookup (replica s) ?dst = Some (Dir es))"
    by (auto simp: copy2_def Let_def node_at_def split: option.splits node.splits if_splits)
  from assms(1) src have "\<exists>es. lookup (replica s) (butlast ?dst) = Some (Dir es)"
  proof (cases "lookup (replica s) ?dst")
    case None
    with assms(1) src show ?thesis
      by (auto simp: copy2_def Let_def node_at_def split: option.splits node.splits if_splits)
  next
    case (Some v)
    then show ?thesis using dne by (rule lookup_parent_Dir)
  qed
  then obtain es0 where par: "lookup (replica s) (butlast ?dst) = Some (Dir es0)" by blast
  have e: "entry_at (replica s1) q =
        (if q = ?dst then Some (File c m r w) else entry_at (replica s) q)" for q
    unfolding s1 using put_file_entry [OF par dne nd] by simp
  have nd': "entry_at (replica s) ?dst \<noteq> Some (Dir [])"
    using nd by (simp add: entry_at_eq_Dir)
  show ?thesis
    using src s1 nd' e by (intro exI [of _ c] exI [of _ m] exI [of _ r] exI [of _ w] exI [of _ ?dst]) simp
qed

lemma apply_step_refl: "apply_step ps st st"
  by (simp add: apply_step_def)

lemma apply_step_trans:
  assumes "apply_step ps a b" and "apply_step ps b c"
  shows "apply_step ps a c"
proof -
  from assms(1) obtain L1 where 1: "source b = source a"
    "source_replica_pairs b = source_replica_pairs a" "wf (replica a) \<longrightarrow> wf (replica b)"
    "\<And>q. entry_at (replica b) q = entry_at (replica a) q \<or>
          (entry_at (replica a) q \<noteq> Some (Dir []) \<and>
           (\<exists>p c m r w. ((Source, p), (Replica, p)) \<in> set ps \<and> (q = p \<or> q = p @ [last p]) \<and>
                lookup (source a) p = Some (File c m r w) \<and>
                entry_at (replica b) q = Some (File c m r w)))"
    "log b = log a @ L1" "\<forall>m\<in>set L1. \<exists>pair\<in>set ps. attempt_record pair m"
    unfolding apply_step_def by blast
  from assms(2) obtain L2 where 2: "source c = source b"
    "source_replica_pairs c = source_replica_pairs b" "wf (replica b) \<longrightarrow> wf (replica c)"
    "\<And>q. entry_at (replica c) q = entry_at (replica b) q \<or>
          (entry_at (replica b) q \<noteq> Some (Dir []) \<and>
           (\<exists>p c' m r w. ((Source, p), (Replica, p)) \<in> set ps \<and> (q = p \<or> q = p @ [last p]) \<and>
                lookup (source b) p = Some (File c' m r w) \<and>
                entry_at (replica c) q = Some (File c' m r w)))"
    "log c = log b @ L2" "\<forall>m\<in>set L2. \<exists>pair\<in>set ps. attempt_record pair m"
    unfolding apply_step_def by blast
  have e: "entry_at (replica c) q = entry_at (replica a) q \<or>
          (entry_at (replica a) q \<noteq> Some (Dir []) \<and>
           (\<exists>p c' m r w. ((Source, p), (Replica, p)) \<in> set ps \<and> (q = p \<or> q = p @ [last p]) \<and>
                lookup (source a) p = Some (File c' m r w) \<and>
                entry_at (replica c) q = Some (File c' m r w)))" for q
  proof (cases "entry_at (replica c) q = entry_at (replica b) q")
    case True
    with 1(4) [of q] show ?thesis by auto
  next
    case False
    with 2(4) [of q] have nb: "entry_at (replica b) q \<noteq> Some (Dir [])"
      and w: "\<exists>p c' m r w. ((Source, p), (Replica, p)) \<in> set ps \<and> (q = p \<or> q = p @ [last p]) \<and>
                lookup (source a) p = Some (File c' m r w) \<and>
                entry_at (replica c) q = Some (File c' m r w)"
      by (simp_all add: 1(1))
    have "entry_at (replica a) q \<noteq> Some (Dir [])" using 1(4) [of q] nb by auto
    with w show ?thesis by blast
  qed
  show ?thesis
    unfolding apply_step_def
  proof (intro conjI allI)
    show "source c = source a" by (simp add: 1(1) 2(1))
    show "source_replica_pairs c = source_replica_pairs a" by (simp add: 1(2) 2(2))
    show "wf (replica a) \<longrightarrow> wf (replica c)" using 1(3) 2(3) by blast
    show "entry_at (replica c) q = entry_at (replica a) q \<or>
          (entry_at (replica a) q \<noteq> Some (Dir []) \<and>
           (\<exists>p c' m r w. ((Source, p), (Replica, p)) \<in> set ps \<and> (q = p \<or> q = p @ [last p]) \<and>
                lookup (source a) p = Some (File c' m r w) \<and>
                entry_at (replica c) q = Some (File c' m r w)))" for q by (rule e)
    show "\<exists>L. log c = log a @ L \<and> (\<forall>m\<in>set L. \<exists>pair\<in>set ps. attempt_record pair m)"
      using 1(5,6) 2(5,6) by (intro exI [of _ "L1 @ L2"]) auto
  qed
qed

lemma copy_or_update_file_step:
  assumes mem: "((Source, p), (Replica, p)) \<in> set ps" and ne: "p \<noteq> []"
  shows "apply_step ps s (copy_or_update_file False ((Source, p), (Replica, p)) s)"
proof (cases "copy2 s (Source, p) (Replica, p)")
  case (Inl ex)
  obtain e x where ex: "ex = (e, x)" by (cases ex)
  with Inl have x: "x = s" by (simp add: copy2_fails_unchanged)
  have eq: "copy_or_update_file False ((Source, p), (Replica, p)) s =
            logging (Failed_to_copy (Source, p) (Replica, p) e) s"
    using Inl ex x by (simp add: copy_or_update_file_def Let_def)
  show ?thesis
    unfolding eq apply_step_def
  proof (intro conjI allI)
    show "\<exists>L. log (logging (Failed_to_copy (Source, p) (Replica, p) e) s) = log s @ L \<and>
        (\<forall>m\<in>set L. \<exists>pair\<in>set ps. attempt_record pair m)"
      using mem
      by (intro exI [of _ "[Failed_to_copy (Source, p) (Replica, p) e]"])
         (force simp: attempt_record_def)
  qed simp_all
next
  case (Inr s1)
  from copy2_replica [OF Inr ne] obtain c m r w dst where
    d: "lookup (source s) p = Some (File c m r w)" "dst = p \<or> dst = p @ [last p]"
       "entry_at (replica s) dst \<noteq> Some (Dir [])"
       "s1 = s\<lparr>replica := put (replica s) dst (File c m r w)\<rparr>"
       "\<And>q. entry_at (replica s1) q =
             (if q = dst then Some (File c m r w) else entry_at (replica s) q)"
    by blast
  have eq: "copy_or_update_file False ((Source, p), (Replica, p)) s =
            logging (Copied_Updated_file (Source, p) (Replica, p)) s1"
    using Inr by (simp add: copy_or_update_file_def Let_def)
  show ?thesis
    unfolding eq apply_step_def
  proof (intro conjI allI)
    show "source (logging (Copied_Updated_file (Source, p) (Replica, p)) s1) = source s"
      by (simp add: d(4))
    show "source_replica_pairs (logging (Copied_Updated_file (Source, p) (Replica, p)) s1) =
          source_replica_pairs s" by (simp add: d(4))
    show "wf (replica s) \<longrightarrow> wf (replica (logging (Copied_Updated_file (Source, p) (Replica, p)) s1))"
      by (simp add: d(4) wf_put_file)
    show "entry_at (replica (logging (Copied_Updated_file (Source, p) (Replica, p)) s1)) q =
            entry_at (replica s) q \<or>
          (entry_at (replica s) q \<noteq> Some (Dir []) \<and>
           (\<exists>p' c' m' r' w'. ((Source, p'), (Replica, p')) \<in> set ps \<and> (q = p' \<or> q = p' @ [last p']) \<and>
                lookup (source s) p' = Some (File c' m' r' w') \<and>
                entry_at (replica (logging (Copied_Updated_file (Source, p) (Replica, p)) s1)) q =
                  Some (File c' m' r' w')))" for q
    proof (cases "q = dst")
      case False
      then show ?thesis by (simp add: d(5))
    next
      case True
      have "entry_at (replica s1) q = Some (File c m r w)" using True by (simp add: d(5))
      with True d(1,2,3) mem show ?thesis by auto
    qed
    show "\<exists>L. log (logging (Copied_Updated_file (Source, p) (Replica, p)) s1) = log s @ L \<and>
        (\<forall>m\<in>set L. \<exists>pair\<in>set ps. attempt_record pair m)"
      using mem
      by (intro exI [of _ "[Copied_Updated_file (Source, p) (Replica, p)]"])
         (force simp: attempt_record_def d(4))
  qed
qed

lemma apply_pairs_step:
  assumes "\<forall>pair\<in>set (source_replica_pairs s). pending_pair ev pats pair"
  shows "apply_step (source_replica_pairs s) s (apply_pairs False s)"
  unfolding apply_pairs_def
proof (rule fold_rel [where R = "apply_step (source_replica_pairs s)"])
  show "apply_step (source_replica_pairs s) x x" for x by (rule apply_step_refl)
  show "apply_step (source_replica_pairs s) x z"
    if "apply_step (source_replica_pairs s) x y" "apply_step (source_replica_pairs s) y z" for x y z
    using that by (rule apply_step_trans)
  show "apply_step (source_replica_pairs s) x (copy_or_update_file False pair x)"
    if "pair \<in> set (source_replica_pairs s)" for pair x
  proof -
    from that assms obtain p where p: "pair = ((Source, p), (Replica, p))" "p \<noteq> []"
      by (auto simp: pending_pair_def)
    with that show ?thesis by (simp add: copy_or_update_file_step)
  qed
qed

lemma ensure_replica_folder_eq:
  "ensure_replica_folder dry s =
     Inr (if replica s \<noteq> None then s
          else if dry then logging (Would_create_replica_folder (Replica, [])) s
          else logging (Created_replica_folder (Replica, [])) (s\<lparr>replica := Some (Dir [])\<rparr>))"
  by (cases "replica s") (simp_all add: ensure_replica_folder_def exists_iff makedirs_def)


subsection \<open>A whole pass\<close>

text \<open>A real pass that returns went through its four phases.\<close>

lemma real_pass_phases:
  assumes run: "sync_folders ev False pats st = Inr st'" and wf: "wf (replica st)"
  obtains s0 s1 s2 where
    "s0 = (if replica st \<noteq> None then st
           else logging (Created_replica_folder (Replica, [])) (st\<lparr>replica := Some (Dir [])\<rparr>))"
    "scan ev False pats s0 = Inr s1"
    "scan_step ev False pats (s0\<lparr>source_replica_pairs := []\<rparr>) s1"
    "s2 = apply_pairs False s1"
    "apply_step (source_replica_pairs s1) s1 s2"
    "prune False s2 = Inr st'"
    "prune_effect (\<lambda>q. q \<noteq> []) s2 st'"
    "wf (replica s2)" "source s2 = source st"
proof -
  let ?s0 = "if replica st \<noteq> None then st
           else logging (Created_replica_folder (Replica, [])) (st\<lparr>replica := Some (Dir [])\<rparr>)"
  have e: "ensure_replica_folder False st = Inr ?s0"
    by (simp add: ensure_replica_folder_eq)
  from run e obtain s1 where s1: "scan ev False pats ?s0 = Inr s1"
    and pr: "prune False (apply_pairs False s1) = Inr st'"
    by (auto simp: sync_folders_def split: sum.splits)
  have step: "scan_step ev False pats (?s0\<lparr>source_replica_pairs := []\<rparr>) s1"
    using s1 by (rule scan_scan_step)
  have wf0: "wf (replica ?s0)" using wf by simp
  have src0: "source ?s0 = source st" by simp
  from step have wf1: "wf (replica s1)" and src1: "source s1 = source st"
    and pend: "\<forall>pair\<in>set (source_replica_pairs s1). pending_pair ev pats pair"
    using wf0 src0 unfolding scan_step_def by auto
  have ap: "apply_step (source_replica_pairs s1) s1 (apply_pairs False s1)"
    using pend by (rule apply_pairs_step)
  then have wf2: "wf (replica (apply_pairs False s1))"
    and src2: "source (apply_pairs False s1) = source st"
    using wf1 src1 unfolding apply_step_def by auto
  from prune_spec [OF wf2] pr
  have pe: "prune_effect (\<lambda>q. q \<noteq> []) (apply_pairs False s1) st'" by auto
  show ?thesis
    using that [OF refl s1 step refl ap pr pe wf2 src2] .
qed

text \<open>
  C3 (amended).  When a real pass over a well-formed replica completes, no path that is
  absent from the source exists in the replica any more (the replica root apart), and
  the source tree is the one the pass started with.
\<close>

theorem orphans_are_removed:
  assumes "wf (replica st)"
      and "sync_folders ev False exclude_patterns st = Inr st'"
      and "lookup (source st) p = None" and "p \<noteq> []"
  shows "lookup (replica st') p = None \<and> source st' = source st"
proof -
  from assms(2,1) obtain s0 s1 s2 where
    pe: "prune_effect (\<lambda>q. q \<noteq> []) s2 st'" and src: "source s2 = source st"
    by (rule real_pass_phases)
  from pe have "entry_at (replica st') p =
      (if p \<noteq> [] \<and> lookup (source s2) p = None then None else entry_at (replica s2) p)"
    and "source st' = source s2"
    unfolding prune_effect_def by blast+
  with assms(3,4) src show ?thesis by (simp add: entry_at_eq_None)
qed

theorem orphans_are_removed_witness:
  "lookup (replica
      \<lparr>source = Some (Dir [(''a.txt'', File ''hello'' 10 True True)]),
       replica = Some (Dir [(''a.txt'', File ''hello'' 10 True True)]),
       source_replica_pairs = [((Source, [''a.txt'']), (Replica, [''a.txt'']))],
       log = [Copied_Updated_file (Source, [''a.txt'']) (Replica, [''a.txt'']),
              Removed_file (Replica, [''orphan.txt''])]\<rparr>) [''orphan.txt''] = None
   \<and> lookup (replica orphan_example) [''orphan.txt''] = Some (File ''old'' 5 True True)"
proof -
  let ?st' = "\<lparr>source = Some (Dir [(''a.txt'', File ''hello'' 10 True True)]),
       replica = Some (Dir [(''a.txt'', File ''hello'' 10 True True)]),
       source_replica_pairs = [((Source, [''a.txt'']), (Replica, [''a.txt'']))],
       log = [Copied_Updated_file (Source, [''a.txt'']) (Replica, [''a.txt'']),
              Removed_file (Replica, [''orphan.txt''])]\<rparr>"
  have 1: "wf (replica orphan_example)" by code_simp
  have 2: "sync_folders example_env False [] orphan_example = Inr ?st'" by code_simp
  have 3: "lookup (source orphan_example) [''orphan.txt''] = None" by code_simp
  have 4: "[''orphan.txt''] \<noteq> []" by simp
  have 5: "lookup (replica orphan_example) [''orphan.txt''] = Some (File ''old'' 5 True True)"
    by code_simp
  from orphans_are_removed [OF 1 2 3 4, THEN conjunct1] 5 show ?thesis by simp
qed

text \<open>
  C3 as stated, for every pair of trees, fails: a regular file in the replica at the
  path of a source directory makes \<^verbatim>\<open>os.makedirs\<close> raise, the pass stops in the scan, and
  the orphan next to it is still there.
\<close>

theorem orphan_survives_aborted_pass:
  "sync_folders example_env False [] blocked_replica = Inl (NotADirectoryError, blocked_replica)
   \<and> lookup (source blocked_replica) [''o''] = None
   \<and> lookup (replica blocked_replica) [''o''] = Some (File ''y'' 0 True True)"
  by code_simp

text \<open>
  C8 (amended).  A replica file whose name matches an exclusion pattern and whose path
  still exists in the source is left as it is by a completed real pass: it is neither
  overwritten nor pruned.
\<close>

theorem excluded_file_is_kept:
  assumes "wf (replica st)"
      and "sync_folders ev False exclude_patterns st = Inr st'"
      and rfile: "lookup (replica st) p = Some (File c m r w)"
      and src: "lookup (source st) p \<noteq> None"
      and excl: "should_exclude ev (last p) exclude_patterns"
  shows "lookup (replica st') p = Some (File c m r w)"
proof -
  from assms(2,1) obtain s0 s1 s2 where
    s0: "s0 = (if replica st \<noteq> None then st
           else logging (Created_replica_folder (Replica, [])) (st\<lparr>replica := Some (Dir [])\<rparr>))"
    and sc: "scan_step ev False exclude_patterns (s0\<lparr>source_replica_pairs := []\<rparr>) s1"
    and ap: "apply_step (source_replica_pairs s1) s1 s2"
    and pe: "prune_effect (\<lambda>q. q \<noteq> []) s2 st'" and src2: "source s2 = source st"
    by (rule real_pass_phases)
  have "replica st \<noteq> None" using rfile by (cases "replica st") auto
  with s0 have e0: "entry_at (replica s0) p = Some (File c m r w)"
    using rfile by (simp add: entry_at_eq_File)
  from sc obtain P where
    e1': "entry_at (replica s1) p = entry_at (replica (s0\<lparr>source_replica_pairs := []\<rparr>)) p \<or>
          (entry_at (replica (s0\<lparr>source_replica_pairs := []\<rparr>)) p = None \<and>
           entry_at (replica s1) p = Some (Dir []))"
    and P: "source_replica_pairs s1 = source_replica_pairs (s0\<lparr>source_replica_pairs := []\<rparr>) @ P"
       "\<forall>pair\<in>set P. pending_pair ev exclude_patterns pair"
    unfolding scan_step_def by blast
  from e1' e0 have e1: "entry_at (replica s1) p = Some (File c m r w)" by simp
  have pend: "\<forall>pair\<in>set (source_replica_pairs s1). pending_pair ev exclude_patterns pair"
    using P by simp
  from ap have "entry_at (replica s2) p = entry_at (replica s1) p \<or>
      (\<exists>p' c' m' r' w'. ((Source, p'), (Replica, p')) \<in> set (source_replica_pairs s1) \<and>
          (p = p' \<or> p = p' @ [last p']))"
    unfolding apply_step_def by blast
  then have e2: "entry_at (replica s2) p = Some (File c m r w)"
  proof
    assume "entry_at (replica s2) p = entry_at (replica s1) p"
    with e1 show ?thesis by simp
  next
    assume "\<exists>p' c' m' r' w'. ((Source, p'), (Replica, p')) \<in> set (source_replica_pairs s1) \<and>
          (p = p' \<or> p = p' @ [last p'])"
    then obtain p' where p': "((Source, p'), (Replica, p')) \<in> set (source_replica_pairs s1)"
      "p = p' \<or> p = p' @ [last p']" by blast
    from p'(1) pend have "\<not> should_exclude ev (last p') exclude_patterns"
      by (auto simp: pending_pair_def)
    moreover from p'(2) have "last p = last p'" by auto
    ultimately show ?thesis using excl by simp
  qed
  from pe have "entry_at (replica st') p =
      (if p \<noteq> [] \<and> lookup (source s2) p = None then None else entry_at (replica s2) p)"
    unfolding prune_effect_def by blast
  with src src2 e2 have "entry_at (replica st') p = Some (File c m r w)" by simp
  then show ?thesis by (simp add: entry_at_eq_File)
qed

theorem excluded_file_is_kept_witness:
  "lookup (replica (excluded_example\<lparr>log := [Excluding_file ''keep.tmp'']\<rparr>)) [''keep.tmp'']
     = Some (File ''v1'' 1 True True)
   \<and> should_exclude example_env ''keep.tmp'' [''*.tmp'']"
proof -
  have 1: "wf (replica excluded_example)" by code_simp
  have 2: "sync_folders example_env False [''*.tmp''] excluded_example =
             Inr (excluded_example\<lparr>log := [Excluding_file ''keep.tmp'']\<rparr>)" by code_simp
  have 3: "lookup (replica excluded_example) [''keep.tmp''] = Some (File ''v1'' 1 True True)"
    by code_simp
  have 4: "lookup (source excluded_example) [''keep.tmp''] \<noteq> None" by code_simp
  have 5: "should_exclude example_env (last [''keep.tmp'']) [''*.tmp'']" by code_simp
  from excluded_file_is_kept [OF 1 2 3 4 5] 5 show ?thesis by simp
qed

text \<open>
  C8 as stated fails: the file \<^verbatim>\<open>keep.tmp\<close> is excluded, the source still has it, and
  the pass leaves the stale replica copy in place.
\<close>

theorem excluded_file_is_not_pruned:
  "sync_folders example_env False [''*.tmp''] excluded_example =
     Inr (excluded_example\<lparr>log := [Excluding_file ''keep.tmp'']\<rparr>)
   \<and> should_exclude example_env ''keep.tmp'' [''*.tmp'']
   \<and> lookup (replica excluded_example) [''keep.tmp''] = Some (File ''v1'' 1 True True)
   \<and> lookup (source excluded_example) [''keep.tmp''] = Some (File ''v2'' 2 True True)"
  by code_simp

subsection \<open>A pass without a source folder\<close>




subsection \<open>The walks over unchanged folders\<close>


lemma scan_directory_source:
  assumes "scan_directory ev dry pats d l s = Inr s'"
  shows "root s' Source = root s Source"
  using scan_directory_step [OF assms] by (simp add: scan_step_def)

lemma scan_static:
  assumes src: "source st = Some (Dir es)" and wf: "wf_entries es"
  shows "scan ev dry pats st =
           for_each (\<lambda>(d, l). scan_directory ev dry pats d l) (([], es) # walk_list [] es)
             (st\<lparr>source_replica_pairs := []\<rparr>)"
proof (cases "scan_directory ev dry pats [] es (st\<lparr>source_replica_pairs := []\<rparr>)")
  case (Inl e)
  then show ?thesis using src by (simp add: scan_def os_walk_def)
next
  case (Inr s1)
  have s1: "source s1 = Some (Dir es)" using scan_directory_source [OF Inr] src by simp
  have "os_walk_dirs Source (scan_directory ev dry pats) [] es s1 =
          for_each (\<lambda>(d, l). scan_directory ev dry pats d l) (walk_list [] es) s1"
  proof (rule os_walk_dirs_static)
    show "root s' Source = root s Source" if "scan_directory ev dry pats d l s = Inr s'"
      for d l s s' using that by (rule scan_directory_source)
    show "wf_entries es" by (rule wf)
    show "lookup (root s1 Source) ([] @ [n]) = Some (Dir sub)" if "(n, Dir sub) \<in> set es"
      for n sub using that s1 wf by (simp add: wf_entries_map_of)
  qed
  with Inr src show ?thesis by (simp add: scan_def os_walk_def)
qed

text \<open>The directories of the walk are the directories of the folder, with their listings.\<close>

lemma walk_entries:
  assumes "wf_entries es"
  shows "(d, l) \<in> set (([], es) # walk_list [] es) \<longleftrightarrow> lookup (Some (Dir es)) d = Some (Dir l)"
proof
  assume "(d, l) \<in> set (([], es) # walk_list [] es)"
  then show "lookup (Some (Dir es)) d = Some (Dir l)"
    using walk_list_sound [OF assms, of d l "[]"] by auto
next
  assume a: "lookup (Some (Dir es)) d = Some (Dir l)"
  show "(d, l) \<in> set (([], es) # walk_list [] es)"
  proof (cases "d = []")
    case True
    with a show ?thesis by simp
  next
    case False
    with walk_list_complete [OF False a, of "[]"] show ?thesis by simp
  qed
qed

lemma walk_wf:
  assumes "wf_entries es" and "(d, l) \<in> set (([], es) # walk_list [] es)"
  shows "wf_entries l"
  using assms walk_list_sound [OF assms(1), of d l "[]"] by auto



subsection \<open>A dry run\<close>






















subsection \<open>What a loop keeps and what it reaches\<close>

lemma for_each_inv:
  assumes "for_each body xs st = Inr st'" and "I st"
      and "\<And>y s s'. y \<in> set xs \<Longrightarrow> I s \<Longrightarrow> body y s = Inr s' \<Longrightarrow> I s'"
  shows "I st'"
  using assms
proof (induction xs arbitrary: st)
  case Nil
  then show ?case by simp
next
  case (Cons x xs)
  from Cons.prems(1) obtain s1 where s1: "body x st = Inr s1" "for_each body xs s1 = Inr st'"
    by (auto split: sum.splits)
  have "I s1" using Cons.prems(3) [of x st s1] Cons.prems(2) s1(1) by simp
  with s1(2) show ?case
  proof (rule Cons.IH)
    show "I s'" if "y \<in> set xs" "I s" "body y s = Inr s'" for y s s'
      using Cons.prems(3) [of y s s'] that by simp
  qed
qed

lemma for_each_cover:
  assumes run: "for_each body xs st = Inr st'" and x: "x \<in> set xs" and J: "J st"
      and inv: "\<And>y s s'. y \<in> set xs \<Longrightarrow> J s \<Longrightarrow> body y s = Inr s' \<Longrightarrow> J s'"
      and hit: "\<And>s s'. J s \<Longrightarrow> body x s = Inr s' \<Longrightarrow> Q s'"
      and keep: "\<And>y s s'. y \<in> set xs \<Longrightarrow> J s \<Longrightarrow> Q s \<Longrightarrow> body y s = Inr s' \<Longrightarrow> Q s'"
  shows "Q st'"
proof -
  from x obtain ys zs where xs: "xs = ys @ x # zs" by (auto simp: in_set_conv_decomp)
  from run obtain s1 where s1: "for_each body ys st = Inr s1" "for_each body (x # zs) s1 = Inr st'"
    unfolding xs for_each_append by (auto split: sum.splits)
  from s1(2) obtain s2 where s2: "body x s1 = Inr s2" "for_each body zs s2 = Inr st'"
    by (auto split: sum.splits)
  have J1: "J s1"
    using s1(1) J
  proof (rule for_each_inv)
    show "J s'" if "y \<in> set ys" "J s" "body y s = Inr s'" for y s s'
      using inv [of y s s'] that xs by simp
  qed
  have J2: "J s2" using inv [of x s1 s2] x J1 s2(1) by simp
  have Q2: "Q s2" using hit [OF J1 s2(1)] .
  have "J st' \<and> Q st'"
    using s2(2)
  proof (rule for_each_inv)
    show "J s2 \<and> Q s2" using J2 Q2 by simp
    show "J s' \<and> Q s'" if "y \<in> set zs" "J s \<and> Q s" "body y s = Inr s'" for y s s'
      using inv [of y s s'] keep [of y s s'] that xs by simp
  qed
  then show ?thesis by simp
qed

lemma fold_inv:
  assumes "I st" and "\<And>y s. y \<in> set xs \<Longrightarrow> I s \<Longrightarrow> I (f y s)"
  shows "I (fold f xs st)"
  using assms
proof (induction xs arbitrary: st)
  case Nil
  then show ?case by simp
next
  case (Cons x xs)
  have "I (f x st)" using Cons.prems by simp
  then have "I (fold f xs (f x st))"
  proof (rule Cons.IH)
    show "I (f y s)" if "y \<in> set xs" "I s" for y s using Cons.prems(2) [of y s] that by simp
  qed
  then show ?case by simp
qed

lemma fold_cover:
  assumes x: "x \<in> set xs" and J: "J st"
      and inv: "\<And>y s. y \<in> set xs \<Longrightarrow> J s \<Longrightarrow> J (f y s)"
      and hit: "\<And>s. J s \<Longrightarrow> Q (f x s)"
      and keep: "\<And>y s. y \<in> set xs \<Longrightarrow> J s \<Longrightarrow> Q s \<Longrightarrow> Q (f y s)"
  shows "Q (fold f xs st)"
proof -
  from x obtain ys zs where xs: "xs = ys @ x # zs" by (auto simp: in_set_conv_decomp)
  have J1: "J (fold f ys st)"
    using J
  proof (rule fold_inv)
    show "J (f y s)" if "y \<in> set ys" "J s" for y s using inv [of y s] that xs by simp
  qed
  have "J (f x (fold f ys st)) \<and> Q (f x (fold f ys st))"
    using inv [of x "fold f ys st"] hit [of "fold f ys st"] J1 x by simp
  then have "J (fold f zs (f x (fold f ys st))) \<and> Q (fold f zs (f x (fold f ys st)))"
  proof (rule fold_inv)
    show "J (f y s) \<and> Q (f y s)" if "y \<in> set zs" "J s \<and> Q s" for y s
      using inv [of y s] keep [of y s] that xs by simp
  qed
  then show ?thesis by (simp add: xs)
qed

subsection \<open>The scan of a real pass\<close>

lemma scan_file_frame:
  assumes "scan_file ev pats d n s = Inr s'"
  shows "source s' = source s \<and> replica s' = replica s"
proof -
  have "source t = source s \<and> replica t = replica s"
    if "files_are_different ev s a b = Inr (f, t)" for a b f t
    using files_are_different_effect [OF that] by auto
  with assms show ?thesis
    by (auto simp: scan_file_def Let_def logging_def split: if_splits sum.splits prod.splits)
qed

lemma scan_files_frame:
  assumes "for_each (scan_file ev pats d) ns s = Inr s'"
  shows "source s' = source s \<and> replica s' = replica s"
  using assms
proof (rule for_each_inv)
  show "source s = source s \<and> replica s = replica s" by simp
  show "source t' = source s \<and> replica t' = replica s"
    if "source t = source s \<and> replica t = replica s" "scan_file ev pats d y t = Inr t'" for y t t'
    using scan_file_frame [OF that(2)] that(1) by simp
qed

text \<open>
  The scan in a directory of the source: afterwards the replica has an entry at the path,
  and the only new entries are directories on the way to it.
\<close>

lemma scan_directory_real:
  assumes "scan_directory ev False pats d l s = Inr s'"
  shows "lookup (replica s') d \<noteq> None"
    and "entry_at (replica s') q = entry_at (replica s) q \<or>
         (entry_at (replica s) q = None \<and> entry_at (replica s') q = Some (Dir []) \<and> prefix q d)"
proof -
  let ?pre = "if \<not> exists s (Replica, d) \<and> \<not> False then
              (case makedirs s (Replica, d) of
                 Inl e \<Rightarrow> Inl e
               | Inr st1 \<Rightarrow> Inr (logging (Created_directory (Replica, d)) st1))
            else Inr s"
  from assms obtain s1 where s1: "?pre = Inr s1"
    and loop: "for_each (scan_file ev pats d) (files_of l) s1 = Inr s'"
    by (auto simp: scan_directory_def Let_def split: sum.splits)
  from scan_files_frame [OF loop] have fr: "replica s' = replica s1" by simp
  have "lookup (replica s1) d \<noteq> None \<and>
        (entry_at (replica s1) q = entry_at (replica s) q \<or>
         (entry_at (replica s) q = None \<and> entry_at (replica s1) q = Some (Dir []) \<and> prefix q d))"
  proof (cases "exists s (Replica, d)")
    case True
    with s1 have "s1 = s" by simp
    with True show ?thesis by (simp add: exists_iff)
  next
    case False
    with s1 obtain s0 where mk: "makedirs s (Replica, d) = Inr s0"
      and s1': "s1 = logging (Created_directory (Replica, d)) s0" by (auto split: sum.splits)
    from makedirs_replica [OF mk] obtain n where
      n: "mkdirs (replica s) d = Inr n" "s0 = s\<lparr>replica := Some n\<rparr>" by blast
    have r1: "replica s1 = Some n" using s1' n(2) by simp
    have "entry_at (Some n) d = Some (Dir [])" by (simp add: entry_at_mkdirs [OF n(1)])
    then have a: "lookup (replica s1) d \<noteq> None" using r1 by (auto simp: entry_at_def)
    have b: "entry_at (Some n) q = entry_at (replica s) q \<or>
          (entry_at (replica s) q = None \<and> entry_at (Some n) q = Some (Dir []) \<and> prefix q d)"
    proof (cases "prefix q d")
      case False
      then show ?thesis by (simp add: entry_at_mkdirs [OF n(1)])
    next
      case True
      have new: "entry_at (Some n) q = Some (Dir [])"
        using True by (simp add: entry_at_mkdirs [OF n(1)])
      show ?thesis
      proof (cases "lookup (replica s) q")
        case None
        with new True show ?thesis by (simp add: entry_at_def)
      next
        case (Some v)
        show ?thesis
        proof (cases v)
          case (File c m r w)
          with Some mkdirs_prefix [OF n(1) True, of c m r w] show ?thesis by simp
        next
          case (Dir es)
          with Some new show ?thesis by (simp add: entry_at_def)
        qed
      qed
    qed
    from a b r1 show ?thesis by simp
  qed
  with fr show "lookup (replica s') d \<noteq> None"
    and "entry_at (replica s') q = entry_at (replica s) q \<or>
         (entry_at (replica s) q = None \<and> entry_at (replica s') q = Some (Dir []) \<and> prefix q d)"
    by simp_all
qed

text \<open>Nothing of the source lies below one of its files, or has a file on its way.\<close>

lemma file_not_prefix:
  assumes "lookup r q = Some (File c m rd w)" and "lookup r d = Some (Dir l)"
  shows "\<not> prefix q d"
proof
  assume "prefix q d"
  then obtain t where t: "d = q @ t" by (auto simp: prefix_def)
  with assms have "lookup (Some (File c m rd w)) t = Some (Dir l)" by (simp add: lookup_append)
  then show False by (cases t) simp_all
qed

subsection \<open>The comparator on two files\<close>

lemma in_sync_same:
  assumes "node_at s a = Some x" and "node_at s b = Some y" and "in_sync ev x y"
  shows "files_are_different ev s a b = Inr (False, s)"
proof -
  from assms(3) obtain c m w c' m' w' where
    x: "x = File c m True w" and y: "y = File c' m' True w'"
    and eq: "length c = length c'" "m \<le> m'" "md5_hexdigest ev c = md5_hexdigest ev c'"
    by (cases x; cases y) auto
  from assms(1,2) show ?thesis unfolding x y using eq
    by (simp add: files_are_different_def stat_def hash_file_eq open_rb_def)
qed

lemma not_different:
  assumes a: "node_at s a = Some x" and b: "node_at s b = Some y"
      and run: "files_are_different ev s a b = Inr (False, s')"
  shows "(s' = s \<and> in_sync ev x y) \<or>
         (\<exists>e. Error_hashing_file a e \<in> set (log s')) \<or>
         (\<exists>e. Error_hashing_file b e \<in> set (log s'))"
proof -
  from a b obtain sa sb where st: "stat ev s a = Inr sa" "stat ev s b = Inr sb"
    by (cases x; cases y) (simp_all add: stat_def)
  from run st have sz: "st_size sa = st_size sb" and tm: "\<not> st_mtime sa > st_mtime sb"
    by (auto simp: files_are_different_def split: if_splits)
  show ?thesis
  proof (cases "open_rb s a")
    case (Inl e)
    with run st sz tm have "Error_hashing_file a e \<in> set (log s')"
      by (auto simp: files_are_different_def hash_file_eq Let_def logging_def
               split: sum.splits prod.splits)
    then show ?thesis by blast
  next
    case fa: (Inr f)
    show ?thesis
    proof (cases "open_rb s b")
      case (Inl e)
      with run st sz tm fa have "Error_hashing_file b e \<in> set (log s')"
        by (auto simp: files_are_different_def hash_file_eq Let_def logging_def
                 split: sum.splits prod.splits)
      then show ?thesis by blast
    next
      case fb: (Inr g)
      from fa a obtain m w where x: "x = File f m True w"
        by (cases x) (auto simp: open_rb_def split: if_splits)
      from fb b obtain m' w' where y: "y = File g m' True w'"
        by (cases y) (auto simp: open_rb_def split: if_splits)
      from st a b x y have sa: "sa = \<lparr>st_size = length f, st_mtime = m\<rparr>"
        and sb: "sb = \<lparr>st_size = length g, st_mtime = m'\<rparr>" by (auto simp: stat_def)
      from run st sz tm fa fb have "s' = s" "md5_hexdigest ev f = md5_hexdigest ev g"
        by (auto simp: files_are_different_def hash_file_eq Let_def)
      with sz tm sa sb x y show ?thesis by simp
    qed
  qed
qed

subsection \<open>What the scan finds\<close>

lemma scan_step_grows:
  assumes "scan_step ev dry pats s s'"
  shows "set (source_replica_pairs s) \<subseteq> set (source_replica_pairs s')"
    and "set (log s) \<subseteq> set (log s')"
  using assms unfolding scan_step_def by auto

lemma scan_file_hit:
  assumes src: "lookup (source s) (d @ [n]) = Some x"
      and ne: "\<not> should_exclude ev n pats"
      and run: "scan_file ev pats d n s = Inr s'"
  shows "((Source, d @ [n]), (Replica, d @ [n])) \<in> set (source_replica_pairs s') \<or>
         (\<exists>y. lookup (replica s) (d @ [n]) = Some y \<and> in_sync ev x y) \<or>
         (\<exists>m\<in>set (log s'). item_error (d @ [n]) m)"
proof (cases "exists s (Replica, d @ [n])")
  case False
  with ne run show ?thesis by (auto simp: scan_file_def Let_def)
next
  case True
  then obtain y where y: "lookup (replica s) (d @ [n]) = Some y" by (auto simp: exists_iff)
  from ne True run obtain f s1 where
    fd: "files_are_different ev s (Source, d @ [n]) (Replica, d @ [n]) = Inr (f, s1)"
    and s': "s' = (if f then s1\<lparr>source_replica_pairs :=
                      source_replica_pairs s1 @ [((Source, d @ [n]), (Replica, d @ [n]))]\<rparr> else s1)"
    by (auto simp: scan_file_def Let_def split: sum.splits)
  show ?thesis
  proof (cases f)
    case True
    with s' show ?thesis by simp
  next
    case False
    have a: "node_at s (Source, d @ [n]) = Some x" using src by (simp add: node_at_def)
    have b: "node_at s (Replica, d @ [n]) = Some y" using y by (simp add: node_at_def)
    from not_different [OF a b] fd False s' y show ?thesis
      by (auto simp: item_error_def)
  qed
qed

lemma source_file_listed:
  assumes src: "source st = Some (Dir es)" and wf: "wf_entries es"
      and x: "lookup (source st) q = Some (File c m r w)"
  obtains l where "q \<noteq> []" "(butlast q, l) \<in> set (([], es) # walk_list [] es)"
    "wf_entries l" "last q \<in> set (files_of l)" "lookup (source st) (butlast q) = Some (Dir l)"
proof -
  have ne: "q \<noteq> []" using src x by auto
  from lookup_parent_Dir [OF x ne] obtain l where
    l: "lookup (source st) (butlast q) = Some (Dir l)" by blast
  then have mem: "(butlast q, l) \<in> set (([], es) # walk_list [] es)"
    using src walk_entries [OF wf, of "butlast q" l] by simp
  then have wfl: "wf_entries l" using wf by (rule walk_wf [rotated])
  have "lookup (source st) (butlast q @ [last q]) = Some (File c m r w)" using x ne by simp
  then have "map_of l (last q) = Some (File c m r w)" using l by (simp add: lookup_append)
  then have "(last q, File c m r w) \<in> set l" by (rule map_of_SomeD)
  then have lf: "last q \<in> set (files_of l)" by (auto simp: files_of_iff)
  show ?thesis by (rule that [OF ne mem wfl lf l])
qed

lemma scan_directory_parts:
  assumes "scan_directory ev False pats d l s = Inr s'"
  obtains sa where "source sa = source s"
    "\<forall>q. entry_at (replica sa) q = entry_at (replica s) q \<or>
         (entry_at (replica s) q = None \<and> entry_at (replica sa) q = Some (Dir []) \<and> prefix q d)"
    "set (source_replica_pairs s) \<subseteq> set (source_replica_pairs sa)" "set (log s) \<subseteq> set (log sa)"
    "for_each (scan_file ev pats d) (files_of l) sa = Inr s'"
proof -
  let ?pre = "if \<not> exists s (Replica, d) \<and> \<not> False then
              (case makedirs s (Replica, d) of
                 Inl e \<Rightarrow> Inl e
               | Inr st1 \<Rightarrow> Inr (logging (Created_directory (Replica, d)) st1))
            else Inr s"
  from assms obtain sa where sa: "?pre = Inr sa"
    and loop: "for_each (scan_file ev pats d) (files_of l) sa = Inr s'"
    by (auto simp: scan_directory_def Let_def split: sum.splits)
  have "scan_directory ev False pats d [] s = Inr sa"
    using sa by (simp add: scan_directory_def files_of_def)
  note 1 = scan_directory_real(2) [OF this] scan_directory_step [OF this]
  have "source sa = source s" using 1(2) by (simp add: scan_step_def)
  moreover have "set (source_replica_pairs s) \<subseteq> set (source_replica_pairs sa)"
    "set (log s) \<subseteq> set (log sa)" using scan_step_grows [OF 1(2)] by simp_all
  ultimately show ?thesis using 1(1) loop by (intro that [of sa]) auto
qed

lemma scan_covers_file:
  assumes src: "source st = Some (Dir es)" and wf: "wf_entries es"
      and run: "scan ev False pats st = Inr s1"
      and x: "lookup (source st) q = Some (File c m r w)"
      and ne: "\<not> should_exclude ev (last q) pats"
  shows "((Source, q), (Replica, q)) \<in> set (source_replica_pairs s1) \<or>
         (\<exists>y. lookup (replica st) q = Some y \<and> in_sync ev (File c m r w) y) \<or>
         (\<exists>m\<in>set (log s1). item_error q m)"
    and "entry_at (replica s1) q = entry_at (replica st) q"
proof -
  from src wf x obtain l where q: "q \<noteq> []"
    and mem: "(butlast q, l) \<in> set (([], es) # walk_list [] es)"
    and wfl: "wf_entries l" and n: "last q \<in> set (files_of l)"
    and par: "lookup (source st) (butlast q) = Some (Dir l)"
    by (rule source_file_listed)
  have qq: "butlast q @ [last q] = q" using q by simp
  let ?W = "([], es) # walk_list [] es"
  let ?J = "\<lambda>s. source s = source st \<and> entry_at (replica s) q = entry_at (replica st) q"
  let ?Q = "\<lambda>s. ((Source, q), (Replica, q)) \<in> set (source_replica_pairs s) \<or>
         (\<exists>y. lookup (replica st) q = Some y \<and> in_sync ev (File c m r w) y) \<or>
         (\<exists>m\<in>set (log s). item_error q m)"
  have loop: "for_each (\<lambda>(d, l). scan_directory ev False pats d l) ?W
                (st\<lparr>source_replica_pairs := []\<rparr>) = Inr s1"
    using run scan_static [OF src wf] by simp
  have J0: "?J (st\<lparr>source_replica_pairs := []\<rparr>)" by simp
  have inv: "?J s'" if y: "y \<in> set ?W" and J: "?J s"
    and b: "(case y of (d, l) \<Rightarrow> scan_directory ev False pats d l) s = Inr s'" for y s s'
  proof -
    obtain d' l' where y': "y = (d', l')" by (cases y)
    with b have run': "scan_directory ev False pats d' l' s = Inr s'" by simp
    from y y' have "lookup (source st) d' = Some (Dir l')"
      using src walk_entries [OF wf, of d' l'] by simp
    from file_not_prefix [OF x this] have np: "\<not> prefix q d'" .
    from scan_directory_real(2) [OF run', of q] np
    have "entry_at (replica s') q = entry_at (replica s) q" by auto
    moreover have "source s' = source s" using scan_directory_source [OF run'] by simp
    ultimately show ?thesis using J by simp
  qed
  have keep: "?Q s'" if y: "y \<in> set ?W" and Q: "?Q s"
    and b: "(case y of (d, l) \<Rightarrow> scan_directory ev False pats d l) s = Inr s'" for y s s'
  proof -
    obtain d' l' where y': "y = (d', l')" by (cases y)
    with b have run': "scan_directory ev False pats d' l' s = Inr s'" by simp
    from scan_step_grows [OF scan_directory_step [OF run']] Q show ?thesis by blast
  qed
  have hit: "?Q s'" if J: "?J s"
    and b: "(case (butlast q, l) of (d, l) \<Rightarrow> scan_directory ev False pats d l) s = Inr s'" for s s'
  proof -
    from b have run': "scan_directory ev False pats (butlast q) l s = Inr s'" by simp
    from run' obtain sa where sa: "source sa = source s"
      and ent': "\<forall>t. entry_at (replica sa) t = entry_at (replica s) t \<or>
         (entry_at (replica s) t = None \<and> entry_at (replica sa) t = Some (Dir []) \<and>
          prefix t (butlast q))"
      and "set (source_replica_pairs s) \<subseteq> set (source_replica_pairs sa)"
      and "set (log s) \<subseteq> set (log sa)"
      and inner: "for_each (scan_file ev pats (butlast q)) (files_of l) sa = Inr s'"
      by (rule scan_directory_parts)
    from file_not_prefix [OF x par] ent' [rule_format, of q] J
    have ea: "entry_at (replica sa) q = entry_at (replica st) q" by auto
    let ?J' = "\<lambda>t. source t = source st \<and> replica t = replica sa"
    show ?thesis
      using inner n
    proof (rule for_each_cover [where J = ?J' and Q = ?Q])
      show "?J' sa" using sa J by simp
      show "?J' t'" if "?J' t" "scan_file ev pats (butlast q) k t = Inr t'" for k t t'
        using scan_file_frame [OF that(2)] that(1) by simp
      show "?Q t'" if "?Q t" "scan_file ev pats (butlast q) k t = Inr t'" for k t t'
        using scan_step_grows [OF scan_file_step [OF that(2), of False]] that(1) by blast
      show "?Q t'" if J': "?J' t" and sf: "scan_file ev pats (butlast q) (last q) t = Inr t'"
        for t t'
      proof -
        have "lookup (source t) (butlast q @ [last q]) = Some (File c m r w)"
          using J' x qq by simp
        from scan_file_hit [OF this ne sf]
        consider "((Source, q), (Replica, q)) \<in> set (source_replica_pairs t')"
          | y where "lookup (replica t) q = Some y" "in_sync ev (File c m r w) y"
          | "\<exists>m\<in>set (log t'). item_error q m"
          unfolding qq by blast
        then show ?thesis
        proof cases
          case 2
          from 2(2) obtain c' m' r' w' where y: "y = File c' m' r' w'" by (cases y) auto
          with 2(1) J' have "entry_at (replica sa) q = Some (File c' m' r' w')"
            by (simp add: entry_at_eq_File)
          with ea have "entry_at (replica st) q = Some (File c' m' r' w')" by simp
          then have "lookup (replica st) q = Some y" unfolding y by (simp only: entry_at_eq_File)
          with 2(2) show ?thesis by blast
        qed blast+
      qed
    qed
  qed
  show "?Q s1"
    using loop mem J0 inv hit keep by (rule for_each_cover [where J = ?J and Q = ?Q])
  have "?J s1" using loop J0 inv by (rule for_each_inv [where I = ?J])
  then show "entry_at (replica s1) q = entry_at (replica st) q" by simp
qed

lemma scan_covers_dir:
  assumes src: "source st = Some (Dir es)" and wf: "wf_entries es"
      and run: "scan ev False pats st = Inr s1"
      and p: "lookup (source st) p = Some (Dir l)"
  shows "lookup (replica s1) p \<noteq> None"
proof -
  let ?W = "([], es) # walk_list [] es"
  have loop: "for_each (\<lambda>(d, l). scan_directory ev False pats d l) ?W
                (st\<lparr>source_replica_pairs := []\<rparr>) = Inr s1"
    using run scan_static [OF src wf] by simp
  have mem: "(p, l) \<in> set ?W" using p src walk_entries [OF wf, of p l] by simp
  show ?thesis
    using loop mem
  proof (rule for_each_cover [where J = "\<lambda>s. True" and Q = "\<lambda>s. lookup (replica s) p \<noteq> None"])
    show "lookup (replica s') p \<noteq> None"
      if "(case (p, l) of (d, l) \<Rightarrow> scan_directory ev False pats d l) s = Inr s'" for s s'
      using scan_directory_real(1) [of ev pats p l s s'] that by simp
    show "lookup (replica s') p \<noteq> None"
      if "lookup (replica s) p \<noteq> None"
        "(case y of (d, l) \<Rightarrow> scan_directory ev False pats d l) s = Inr s'" for y s s'
    proof -
      obtain d' l' where "y = (d', l')" by (cases y)
      with that(2) have "scan_directory ev False pats d' l' s = Inr s'" by simp
      from scan_directory_real(2) [OF this, of p]
      have "entry_at (replica s) p \<noteq> None \<longrightarrow> entry_at (replica s') p \<noteq> None" by auto
      with that(1) show ?thesis by (simp add: entry_at_eq_None)
    qed
  qed simp_all
qed

subsection \<open>What the copies reach\<close>

lemma copy2_replica_dst:
  assumes "copy2 s (Source, p) (Replica, p) = Inr s1" and "p \<noteq> []"
  shows "\<exists>c m w. lookup (source s) p = Some (File c m True w)
           \<and> source s1 = source s \<and> log s1 = log s
           \<and> (\<forall>q. entry_at (replica s1) q =
                 (if q = (if isdir s (Replica, p) then p @ [last p] else p)
                  then Some (File c m True w) else entry_at (replica s) q))"
proof -
  let ?dst = "if isdir s (Replica, p) then p @ [last p] else p"
  from copy2_replica [OF assms] obtain c m r w dst where
    src: "lookup (source s) p = Some (File c m r w)"
    and s1: "s1 = s\<lparr>replica := put (replica s) dst (File c m r w)\<rparr>" by blast
  from assms(1) src have r: "r"
    by (auto simp: copy2_def Let_def node_at_def split: option.splits node.splits if_splits)
  from assms(1) src have s1': "s1 = s\<lparr>replica := put (replica s) ?dst (File c m r w)\<rparr>"
    by (auto simp: copy2_def Let_def node_at_def split: option.splits node.splits if_splits)
  have dne: "?dst \<noteq> []" using assms(2) by simp
  from assms(1) src have nd: "\<not> (\<exists>es. lookup (replica s) ?dst = Some (Dir es))"
    by (auto simp: copy2_def Let_def node_at_def split: option.splits node.splits if_splits)
  from assms(1) src have "\<exists>es. lookup (replica s) (butlast ?dst) = Some (Dir es)"
  proof (cases "lookup (replica s) ?dst")
    case None
    with assms(1) src show ?thesis
      by (auto simp: copy2_def Let_def node_at_def split: option.splits node.splits if_splits)
  next
    case (Some v)
    then show ?thesis using dne by (rule lookup_parent_Dir)
  qed
  then obtain es0 where par: "lookup (replica s) (butlast ?dst) = Some (Dir es0)" by blast
  have e: "entry_at (replica s1) q =
        (if q = ?dst then Some (File c m r w) else entry_at (replica s) q)" for q
    unfolding s1' using put_file_entry [OF par dne nd] by simp
  show ?thesis
    using src r e s1' by (intro exI [of _ c] exI [of _ m] exI [of _ w]) simp
qed

lemma copy_step_file:
  assumes x: "lookup (source s) q = Some (File c m r w)"
      and I: "entry_at (replica s) q = Some (Dir []) \<longrightarrow> (\<exists>l. lookup R0 q = Some (Dir l))"
      and p: "p \<noteq> []"
      and Q: "settled ev R0 q (File c m r w) s \<or> p = q"
  shows "source (copy_or_update_file False ((Source, p), (Replica, p)) s) = source s"
    and "entry_at (replica (copy_or_update_file False ((Source, p), (Replica, p)) s)) q = Some (Dir [])
           \<longrightarrow> (\<exists>l. lookup R0 q = Some (Dir l))"
    and "settled ev R0 q (File c m r w) (copy_or_update_file False ((Source, p), (Replica, p)) s)"
proof -
  let ?s' = "copy_or_update_file False ((Source, p), (Replica, p)) s"
  have "source ?s' = source s \<and>
        (entry_at (replica ?s') q = Some (Dir []) \<longrightarrow> (\<exists>l. lookup R0 q = Some (Dir l))) \<and>
        settled ev R0 q (File c m r w) ?s'"
  proof (cases "copy2 s (Source, p) (Replica, p)")
    case (Inl a)
    obtain e s_e where a: "a = (e, s_e)" by (cases a)
    with Inl copy2_fails_unchanged [of s "(Source, p)" "(Replica, p)" e s_e] have "s_e = s" by simp
    with Inl a have s': "?s' = logging (Failed_to_copy (Source, p) (Replica, p) e) s"
      by (simp add: copy_or_update_file_def)
    have "settled ev R0 q (File c m r w) ?s'"
    proof (cases "p = q")
      case True
      then have "\<exists>m\<in>set (log ?s'). item_error q m" unfolding s' by (simp add: item_error_def)
      then show ?thesis unfolding settled_def by blast
    next
      case False
      with Q have "settled ev R0 q (File c m r w) s" by simp
      then show ?thesis unfolding settled_def s' by auto
    qed
    with I show ?thesis unfolding s' by simp
  next
    case (Inr s1)
    then have s': "?s' = logging (Copied_Updated_file (Source, p) (Replica, p)) s1"
      by (simp add: copy_or_update_file_def)
    let ?dst = "if isdir s (Replica, p) then p @ [last p] else p"
    from copy2_replica_dst [OF Inr p] obtain c' m' w' where
      sp: "lookup (source s) p = Some (File c' m' True w')"
      and fr: "source s1 = source s" "log s1 = log s"
      and ent: "\<And>t. entry_at (replica s1) t =
                 (if t = ?dst then Some (File c' m' True w') else entry_at (replica s) t)"
      by blast
    have below: "q \<noteq> p @ [last p]"
    proof
      assume "q = p @ [last p]"
      with x sp show False by (simp add: lookup_append)
    qed
    have a: "source ?s' = source s" unfolding s' using fr by simp
    have b: "entry_at (replica ?s') q = Some (Dir []) \<longrightarrow> (\<exists>l. lookup R0 q = Some (Dir l))"
      unfolding s' using ent [of q] I by (auto split: if_splits)
    have c: "settled ev R0 q (File c m r w) ?s'"
    proof (cases "q = ?dst")
      case False
      then have same: "entry_at (replica ?s') q = entry_at (replica s) q"
        unfolding s' using ent [of q] by simp
      have pq: "p \<noteq> q \<or> isdir s (Replica, p)" using False by (auto split: if_splits)
      show ?thesis
      proof (cases "p = q")
        case True
        with pq have "isdir s (Replica, q)" by (auto split: if_splits)
        then have "entry_at (replica s) q = Some (Dir [])" by (simp add: isdir_entry_at)
        with I show ?thesis unfolding settled_def by blast
      next
        case False
        with Q have "settled ev R0 q (File c m r w) s" by simp
        then consider y where "lookup (replica s) q = Some y" "in_sync ev (File c m r w) y"
            "y = File c m r w \<or> lookup R0 q = Some y"
          | "\<exists>m\<in>set (log s). item_error q m" | "\<exists>l. lookup R0 q = Some (Dir l)"
          unfolding settled_def by blast
        then show ?thesis
        proof cases
          case 1
          from 1(2) obtain c2 m2 r2 w2 where y: "y = File c2 m2 r2 w2" by (cases y) auto
          with 1(1) have "entry_at (replica s) q = Some (File c2 m2 r2 w2)"
            by (simp only: entry_at_eq_File)
          with same have "entry_at (replica ?s') q = Some (File c2 m2 r2 w2)" by simp
          then have "lookup (replica ?s') q = Some y" unfolding y by (simp only: entry_at_eq_File)
          with 1(2,3) show ?thesis unfolding settled_def by blast
        next
          case 2
          then show ?thesis unfolding settled_def s' using fr by auto
        next
          case 3
          then show ?thesis unfolding settled_def by blast
        qed
      qed
    next
      case True
      with below have qp: "q = p" by (auto split: if_splits)
      with x sp have eq: "File c m r w = File c' m' True w'" by simp
      from True ent [of q] have "entry_at (replica ?s') q = Some (File c' m' True w')"
        unfolding s' by simp
      then have "lookup (replica ?s') q = Some (File c' m' True w')"
        by (simp only: entry_at_eq_File)
      moreover have "in_sync ev (File c' m' True w') (File c' m' True w')" by simp
      ultimately show ?thesis unfolding settled_def eq by blast
    qed
    from a b c show ?thesis by simp
  qed
  then show "source ?s' = source s"
    and "entry_at (replica ?s') q = Some (Dir []) \<longrightarrow> (\<exists>l. lookup R0 q = Some (Dir l))"
    and "settled ev R0 q (File c m r w) ?s'" by simp_all
qed

lemma copy_step_frame:
  fixes R0 :: "node option"
  assumes I: "entry_at (replica s) q = Some (Dir []) \<longrightarrow> (\<exists>l. lookup R0 q = Some (Dir l))"
      and p: "p \<noteq> []"
  shows "source (copy_or_update_file False ((Source, p), (Replica, p)) s) = source s"
    and "entry_at (replica (copy_or_update_file False ((Source, p), (Replica, p)) s)) q = Some (Dir [])
           \<longrightarrow> (\<exists>l. lookup R0 q = Some (Dir l))"
proof -
  let ?s' = "copy_or_update_file False ((Source, p), (Replica, p)) s"
  have "source ?s' = source s \<and>
        (entry_at (replica ?s') q = Some (Dir []) \<longrightarrow> (\<exists>l. lookup R0 q = Some (Dir l)))"
  proof (cases "copy2 s (Source, p) (Replica, p)")
    case (Inl a)
    obtain e s_e where a: "a = (e, s_e)" by (cases a)
    with Inl copy2_fails_unchanged [of s "(Source, p)" "(Replica, p)" e s_e] have "s_e = s" by simp
    with Inl a have s': "?s' = logging (Failed_to_copy (Source, p) (Replica, p) e) s"
      by (simp add: copy_or_update_file_def)
    with I show ?thesis by simp
  next
    case (Inr s1)
    then have s': "?s' = logging (Copied_Updated_file (Source, p) (Replica, p)) s1"
      by (simp add: copy_or_update_file_def)
    from copy2_replica_dst [OF Inr p] obtain c' m' w' where
      fr: "source s1 = source s"
      and ent: "\<And>t. entry_at (replica s1) t =
                 (if t = (if isdir s (Replica, p) then p @ [last p] else p)
                  then Some (File c' m' True w') else entry_at (replica s) t)"
      by blast
    show ?thesis unfolding s' using ent [of q] I fr by (auto split: if_splits)
  qed
  then show "source ?s' = source s"
    and "entry_at (replica ?s') q = Some (Dir []) \<longrightarrow> (\<exists>l. lookup R0 q = Some (Dir l))"
    by simp_all
qed

lemma apply_covers_file:
  fixes R0 :: "node option"
  assumes x: "lookup (source s1) q = Some (File c m r w)"
      and pend: "\<forall>pair\<in>set (source_replica_pairs s1). pending_pair ev pats pair"
      and I: "entry_at (replica s1) q = Some (Dir []) \<longrightarrow> (\<exists>l. lookup R0 q = Some (Dir l))"
      and init: "settled ev R0 q (File c m r w) s1 \<or>
                 ((Source, q), (Replica, q)) \<in> set (source_replica_pairs s1)"
  shows "settled ev R0 q (File c m r w) (apply_pairs False s1)"
proof -
  let ?I = "\<lambda>s. source s = source s1 \<and>
                (entry_at (replica s) q = Some (Dir []) \<longrightarrow> (\<exists>l. lookup R0 q = Some (Dir l)))"
  let ?Q = "settled ev R0 q (File c m r w)"
  let ?f = "copy_or_update_file False"
  have pair: "\<exists>p. y = ((Source, p), (Replica, p)) \<and> p \<noteq> []"
    if "y \<in> set (source_replica_pairs s1)" for y
    using pend that by (auto simp: pending_pair_def)
  have I1: "?I s1" using I by simp
  have inv: "?I (?f y s)" if "y \<in> set (source_replica_pairs s1)" "?I s" for y s
  proof -
    from pair [OF that(1)] obtain p where p: "y = ((Source, p), (Replica, p))" "p \<noteq> []" by blast
    from that(2) have "entry_at (replica s) q = Some (Dir []) \<longrightarrow> (\<exists>l. lookup R0 q = Some (Dir l))"
      by simp
    from copy_step_frame [OF this p(2)] that(2) show ?thesis unfolding p(1) by simp
  qed
  have keep: "?Q (?f y s)" if "y \<in> set (source_replica_pairs s1)" "?I s" "?Q s" for y s
  proof -
    from pair [OF that(1)] obtain p where p: "y = ((Source, p), (Replica, p))" "p \<noteq> []" by blast
    have 1: "lookup (source s) q = Some (File c m r w)" using that(2) x by simp
    have 2: "entry_at (replica s) q = Some (Dir []) \<longrightarrow> (\<exists>l. lookup R0 q = Some (Dir l))"
      using that(2) by simp
    have 3: "settled ev R0 q (File c m r w) s \<or> p = q" using that(3) by simp
    from copy_step_file(3) [OF 1 2 p(2) 3] show ?thesis unfolding p(1) .
  qed
  have hit: "?Q (?f ((Source, q), (Replica, q)) s)"
    if "((Source, q), (Replica, q)) \<in> set (source_replica_pairs s1)" "?I s" for s
  proof -
    from pair [OF that(1)] have q: "q \<noteq> []" by simp
    have 1: "lookup (source s) q = Some (File c m r w)" using that(2) x by simp
    have 2: "entry_at (replica s) q = Some (Dir []) \<longrightarrow> (\<exists>l. lookup R0 q = Some (Dir l))"
      using that(2) by simp
    have 3: "settled ev R0 q (File c m r w) s \<or> q = q" by simp
    from copy_step_file(3) [OF 1 2 q 3] show ?thesis .
  qed
  from init show ?thesis
  proof
    assume Q1: "?Q s1"
    have "?I (fold ?f (source_replica_pairs s1) s1) \<and> ?Q (fold ?f (source_replica_pairs s1) s1)"
    proof (rule fold_inv [where I = "\<lambda>s. ?I s \<and> ?Q s"])
      show "?I s1 \<and> ?Q s1" using I1 Q1 by simp
      show "?I (?f y s) \<and> ?Q (?f y s)"
        if "y \<in> set (source_replica_pairs s1)" "?I s \<and> ?Q s" for y s
        using inv [of y s] keep [of y s] that by simp
    qed
    then show ?thesis by (simp add: apply_pairs_def)
  next
    assume mem: "((Source, q), (Replica, q)) \<in> set (source_replica_pairs s1)"
    have "?Q (fold ?f (source_replica_pairs s1) s1)"
      using mem I1
    proof (rule fold_cover [where J = ?I and Q = ?Q])
      show "?I (?f y s)" if "y \<in> set (source_replica_pairs s1)" "?I s" for y s
        using inv [of y s] that by simp
      show "?Q (?f ((Source, q), (Replica, q)) s)" if "?I s" for s
        using hit [OF mem that] .
      show "?Q (?f y s)" if "y \<in> set (source_replica_pairs s1)" "?I s" "?Q s" for y s
        using keep [of y s] that by simp
    qed
    then show ?thesis by (simp add: apply_pairs_def)
  qed
qed

subsection \<open>What a completed pass has done\<close>

lemma scan_keeps_file_entry:
  assumes src: "source st = Some (Dir es)" and wf: "wf_entries es"
      and run: "scan ev False pats st = Inr s1"
      and x: "lookup (source st) q = Some (File c m r w)"
  shows "entry_at (replica s1) q = entry_at (replica st) q"
proof -
  let ?W = "([], es) # walk_list [] es"
  let ?J = "\<lambda>s. source s = source st \<and> entry_at (replica s) q = entry_at (replica st) q"
  have loop: "for_each (\<lambda>(d, l). scan_directory ev False pats d l) ?W
                (st\<lparr>source_replica_pairs := []\<rparr>) = Inr s1"
    using run scan_static [OF src wf] by simp
  have "?J s1"
    using loop
  proof (rule for_each_inv [where I = ?J])
    show "?J (st\<lparr>source_replica_pairs := []\<rparr>)" by simp
    show "?J s'" if y: "y \<in> set ?W" and J: "?J s"
      and b: "(case y of (d, l) \<Rightarrow> scan_directory ev False pats d l) s = Inr s'" for y s s'
    proof -
      obtain d' l' where y': "y = (d', l')" by (cases y)
      with b have run': "scan_directory ev False pats d' l' s = Inr s'" by simp
      from y y' have "lookup (source st) d' = Some (Dir l')"
        using src walk_entries [OF wf, of d' l'] by simp
      from file_not_prefix [OF x this] have np: "\<not> prefix q d'" .
      from scan_directory_real(2) [OF run', of q] np
      have "entry_at (replica s') q = entry_at (replica s) q" by auto
      moreover have "source s' = source s" using scan_directory_source [OF run'] by simp
      ultimately show ?thesis using J by simp
    qed
  qed
  then show ?thesis by simp
qed

lemma source_is_dir:
  assumes "lookup r q = Some v" and "q \<noteq> []"
  obtains es where "r = Some (Dir es)"
proof -
  from assms obtain n where n: "r = Some n" by (cases r) auto
  from assms n obtain es where "n = Dir es" by (cases n; cases q) auto
  with n show ?thesis by (intro that [of es]) simp
qed

lemma pass_file:
  assumes wfs: "wf (source st)" and wfr: "wf (replica st)"
      and run: "sync_folders ev False pats st = Inr st'"
      and x: "lookup (source st) q = Some (File c m r w)" and q: "q \<noteq> []"
      and ne: "\<not> should_exclude ev (last q) pats"
  shows "settled ev (replica st) q (File c m r w) st'"
proof -
  from run wfr obtain s0 s1 s2 where
    s0: "s0 = (if replica st \<noteq> None then st
           else logging (Created_replica_folder (Replica, [])) (st\<lparr>replica := Some (Dir [])\<rparr>))"
    and sc: "scan ev False pats s0 = Inr s1"
    and ss: "scan_step ev False pats (s0\<lparr>source_replica_pairs := []\<rparr>) s1"
    and s2: "s2 = apply_pairs False s1"
    and as: "apply_step (source_replica_pairs s1) s1 s2"
    and pr: "prune False s2 = Inr st'"
    and pe: "prune_effect (\<lambda>q. q \<noteq> []) s2 st'"
    and wf2: "wf (replica s2)" and src2: "source s2 = source st"
    by (rule real_pass_phases)
  from x q obtain es where es: "source st = Some (Dir es)" by (rule source_is_dir)
  with wfs have wfe: "wf_entries es" by simp
  have src0: "source s0 = Some (Dir es)" using s0 es by simp
  have x0: "lookup (source s0) q = Some (File c m r w)" using x s0 by simp
  have r0: "lookup (replica s0) q = lookup (replica st) q"
    using s0 q by (cases q) auto
  have src1: "source s1 = source st" using ss s0 by (simp add: scan_step_def)
  have pend: "\<forall>pair\<in>set (source_replica_pairs s1). pending_pair ev pats pair"
    using ss unfolding scan_step_def by auto
  note cov = scan_covers_file [OF src0 wfe sc x0 ne]
  have e1: "entry_at (replica s1) q = entry_at (replica st) q"
    using cov(2) r0 by (simp add: entry_at_def)
  have I: "entry_at (replica s1) q = Some (Dir []) \<longrightarrow> (\<exists>l. lookup (replica st) q = Some (Dir l))"
    using e1 by (simp add: entry_at_eq_Dir)
  have init: "settled ev (replica st) q (File c m r w) s1 \<or>
              ((Source, q), (Replica, q)) \<in> set (source_replica_pairs s1)"
  proof -
    from cov(1) consider "((Source, q), (Replica, q)) \<in> set (source_replica_pairs s1)"
      | y where "lookup (replica s0) q = Some y" "in_sync ev (File c m r w) y"
      | "\<exists>m\<in>set (log s1). item_error q m" by blast
    then show ?thesis
    proof cases
      case 2
      from 2(2) obtain c2 m2 r2 w2 where y: "y = File c2 m2 r2 w2" by (cases y) auto
      from 2(1) r0 have o: "lookup (replica st) q = Some y" by simp
      then have "entry_at (replica st) q = Some (File c2 m2 r2 w2)"
        unfolding y by (simp only: entry_at_eq_File)
      with e1 have "lookup (replica s1) q = Some y" unfolding y by (simp only: entry_at_eq_File)
      with 2(2) o show ?thesis unfolding settled_def by blast
    qed (auto simp: settled_def)
  qed
  have x1: "lookup (source s1) q = Some (File c m r w)" using x src1 by simp
  have set2: "settled ev (replica st) q (File c m r w) s2"
    unfolding s2 using x1 pend I init by (rule apply_covers_file)
  from pe have ent: "entry_at (replica st') q = entry_at (replica s2) q"
    and lg: "set (log s2) \<subseteq> set (log st')"
    using x src2 unfolding prune_effect_def by auto
  from set2 consider y where "lookup (replica s2) q = Some y" "in_sync ev (File c m r w) y"
      "y = File c m r w \<or> lookup (replica st) q = Some y"
    | "\<exists>m\<in>set (log s2). item_error q m" | "\<exists>l. lookup (replica st) q = Some (Dir l)"
    unfolding settled_def by blast
  then show ?thesis
  proof cases
    case 1
    from 1(2) obtain c2 m2 r2 w2 where y: "y = File c2 m2 r2 w2" by (cases y) auto
    from 1(1) have "entry_at (replica s2) q = Some (File c2 m2 r2 w2)"
      unfolding y by (simp only: entry_at_eq_File)
    with ent have "lookup (replica st') q = Some y" unfolding y by (simp only: entry_at_eq_File)
    with 1(2,3) show ?thesis unfolding settled_def by blast
  next
    case 2
    with lg show ?thesis unfolding settled_def by blast
  next
    case 3
    then show ?thesis unfolding settled_def by blast
  qed
qed

lemma pass_dir:
  assumes wfs: "wf (source st)" and wfr: "wf (replica st)"
      and run: "sync_folders ev False pats st = Inr st'"
      and p: "lookup (source st) p = Some (Dir l)"
  shows "lookup (replica st') p \<noteq> None"
    and "(\<exists>l'. lookup (replica st') p = Some (Dir l')) \<or>
         (\<exists>c m r w. lookup (replica st) p = Some (File c m r w) \<and>
                    lookup (replica st') p = Some (File c m r w))"
proof -
  from run wfr obtain s0 s1 s2 where
    s0: "s0 = (if replica st \<noteq> None then st
           else logging (Created_replica_folder (Replica, [])) (st\<lparr>replica := Some (Dir [])\<rparr>))"
    and sc: "scan ev False pats s0 = Inr s1"
    and ss: "scan_step ev False pats (s0\<lparr>source_replica_pairs := []\<rparr>) s1"
    and s2: "s2 = apply_pairs False s1"
    and as: "apply_step (source_replica_pairs s1) s1 s2"
    and pr: "prune False s2 = Inr st'"
    and pe: "prune_effect (\<lambda>q. q \<noteq> []) s2 st'"
    and wf2: "wf (replica s2)" and src2: "source s2 = source st"
    by (rule real_pass_phases)
  from p obtain es where es: "source st = Some (Dir es)"
  proof (cases "p = []")
    case True
    with p that show ?thesis by simp
  next
    case False
    with p that show ?thesis by (auto elim: source_is_dir)
  qed
  with wfs have wfe: "wf_entries es" by simp
  have src0: "source s0 = Some (Dir es)" using s0 es by simp
  have p0: "lookup (source s0) p = Some (Dir l)" using p s0 by simp
  have a1: "entry_at (replica s1) p \<noteq> None"
    using scan_covers_dir [OF src0 wfe sc p0] by (simp add: entry_at_eq_None)
  from ss have k1: "entry_at (replica s1) p = entry_at (replica s0) p \<or>
      (entry_at (replica s0) p = None \<and> entry_at (replica s1) p = Some (Dir []))"
    unfolding scan_step_def by simp
  have o0: "entry_at (replica s0) p = Some (File c m r w) \<Longrightarrow>
            entry_at (replica st) p = Some (File c m r w)" for c m r w
    using s0 by (cases "replica st"; cases p) (auto simp: entry_at_def)
  from a1 k1 o0 have b1: "entry_at (replica s1) p = Some (Dir []) \<or>
      (\<exists>c m r w. entry_at (replica st) p = Some (File c m r w) \<and>
                 entry_at (replica s1) p = Some (File c m r w))"
  proof (cases "entry_at (replica s1) p")
    case None
    with a1 show ?thesis by simp
  next
    case (Some v)
    show ?thesis
    proof (cases v)
      case (Dir l')
      with Some have "l' = []" by (simp add: entry_at_eq_Dir)
      with Some Dir show ?thesis by simp
    next
      case (File c m r w)
      with Some k1 have "entry_at (replica s0) p = Some (File c m r w)" by auto
      with o0 Some File show ?thesis by simp
    qed
  qed
  from as have k2: "entry_at (replica s2) p = entry_at (replica s1) p \<or>
      (entry_at (replica s1) p \<noteq> Some (Dir []) \<and>
       (\<exists>p' c m r w. ((Source, p'), (Replica, p')) \<in> set (source_replica_pairs s1) \<and>
          (p = p' \<or> p = p' @ [last p']) \<and> lookup (source s1) p' = Some (File c m r w) \<and>
          entry_at (replica s2) p = Some (File c m r w)))"
    unfolding apply_step_def by blast
  have src1: "source s1 = source st" using ss s0 by (simp add: scan_step_def)
  have same2: "entry_at (replica s2) p = entry_at (replica s1) p"
  proof (rule ccontr)
    assume "entry_at (replica s2) p \<noteq> entry_at (replica s1) p"
    with k2 have "\<exists>p' c m r w. (p = p' \<or> p = p' @ [last p']) \<and>
        lookup (source s1) p' = Some (File c m r w)" by blast
    then obtain p' c m r w where "p = p' \<or> p = p' @ [last p']"
      "lookup (source st) p' = Some (File c m r w)" unfolding src1 by blast
    with p show False by (auto simp: lookup_append)
  qed
  from pe have same3: "entry_at (replica st') p = entry_at (replica s2) p"
    using p src2 unfolding prune_effect_def by auto
  from b1 same2 same3 have fin: "entry_at (replica st') p = Some (Dir []) \<or>
      (\<exists>c m r w. entry_at (replica st) p = Some (File c m r w) \<and>
                 entry_at (replica st') p = Some (File c m r w))" by simp
  then show "(\<exists>l'. lookup (replica st') p = Some (Dir l')) \<or>
         (\<exists>c m r w. lookup (replica st) p = Some (File c m r w) \<and>
                    lookup (replica st') p = Some (File c m r w))"
    by (auto simp: entry_at_eq_Dir entry_at_eq_File)
  from fin have "entry_at (replica st') p \<noteq> None" by auto
  then show "lookup (replica st') p \<noteq> None" by (simp add: entry_at_eq_None)
qed

lemma pass_orphan:
  assumes "wf (replica st)" and "sync_folders ev False pats st = Inr st'"
      and "lookup (source st) p = None" and "p \<noteq> []"
  shows "lookup (replica st') p = None"
proof -
  from assms(2,1) obtain s0 s1 s2 where
    pe: "prune_effect (\<lambda>q. q \<noteq> []) s2 st'" and src: "source s2 = source st"
    by (rule real_pass_phases)
  then have "entry_at (replica st') p = None"
    using assms(3,4) unfolding prune_effect_def by auto
  then show ?thesis by (simp add: entry_at_eq_None)
qed

lemma pass_excluded:
  assumes wfs: "wf (source st)" and wfr: "wf (replica st)"
      and run: "sync_folders ev False pats st = Inr st'"
      and x: "lookup (source st) q = Some (File c m r w)" and q: "q \<noteq> []"
      and ex: "should_exclude ev (last q) pats"
  shows "entry_at (replica st') q = entry_at (replica st) q"
proof -
  from run wfr obtain s0 s1 s2 where
    s0: "s0 = (if replica st \<noteq> None then st
           else logging (Created_replica_folder (Replica, [])) (st\<lparr>replica := Some (Dir [])\<rparr>))"
    and sc: "scan ev False pats s0 = Inr s1"
    and ss: "scan_step ev False pats (s0\<lparr>source_replica_pairs := []\<rparr>) s1"
    and s2: "s2 = apply_pairs False s1"
    and as: "apply_step (source_replica_pairs s1) s1 s2"
    and pr: "prune False s2 = Inr st'"
    and pe: "prune_effect (\<lambda>q. q \<noteq> []) s2 st'"
    and wf2: "wf (replica s2)" and src2: "source s2 = source st"
    by (rule real_pass_phases)
  from x q obtain es where es: "source st = Some (Dir es)" by (rule source_is_dir)
  with wfs have wfe: "wf_entries es" by simp
  have src0: "source s0 = Some (Dir es)" using s0 es by simp
  have x0: "lookup (source s0) q = Some (File c m r w)" using x s0 by simp
  have r0: "lookup (replica s0) q = lookup (replica st) q"
    using s0 q by (cases q) auto
  have src1: "source s1 = source st" using ss s0 by (simp add: scan_step_def)
  have pend: "\<forall>pair\<in>set (source_replica_pairs s1). pending_pair ev pats pair"
    using ss unfolding scan_step_def by auto
  have e1: "entry_at (replica s1) q = entry_at (replica st) q"
    using scan_keeps_file_entry [OF src0 wfe sc x0] r0 by (simp add: entry_at_def)
  from as have k2: "entry_at (replica s2) q = entry_at (replica s1) q \<or>
       (\<exists>p' c m r w. ((Source, p'), (Replica, p')) \<in> set (source_replica_pairs s1) \<and>
          (q = p' \<or> q = p' @ [last p']) \<and> lookup (source s1) p' = Some (File c m r w))"
    unfolding apply_step_def by blast
  have e2: "entry_at (replica s2) q = entry_at (replica s1) q"
  proof (rule ccontr)
    assume "entry_at (replica s2) q \<noteq> entry_at (replica s1) q"
    with k2 have "\<exists>p' c m r w. ((Source, p'), (Replica, p')) \<in> set (source_replica_pairs s1) \<and>
          (q = p' \<or> q = p' @ [last p']) \<and> lookup (source s1) p' = Some (File c m r w)"
      by blast
    then obtain p' c' m' r' w' where
      mem: "((Source, p'), (Replica, p')) \<in> set (source_replica_pairs s1)"
      and qp: "q = p' \<or> q = p' @ [last p']"
      and sp: "lookup (source st) p' = Some (File c' m' r' w')" unfolding src1 by blast
    from mem pend have "\<not> should_exclude ev (last p') pats" by (auto simp: pending_pair_def)
    moreover from qp have "last q = last p'" by auto
    ultimately show False using ex by simp
  qed
  from pe have "entry_at (replica st') q = entry_at (replica s2) q"
    using x src2 unfolding prune_effect_def by auto
  with e1 e2 show ?thesis by simp
qed

end
